theory Spec2Isabelle
  imports Main "HOL-Library.Sublist" "HOL-Library.Product_Lexorder"
begin

section \<open>Call-lifecycle orchestration core\<close>

text \<open>
  The record store and the voice/agent provider are remote services. Every request the
  source awaits is a function of the store (for reads and writes) or of an environment
  record that holds the answer the remote service gives. A write whose response the
  source does not inspect (an awaited PATCH with the result dropped) changes the store
  when the store accepts it and changes nothing otherwise; the handler goes on either
  way. For the PATCHes of the reconciliation pass, for the status PATCHes of the
  onboarding run and for the requests of the claim, the environment holds the store's
  answer, and also says when the request rejects, which throws: out of the
  reconciliation pass and its handler, which have no try/catch (as do a provider body
  that does not parse and a date out of range), out of the onboarding handler, and out
  of \<open>claimDueScheduled\<close>, whose caller catches. The PATCHes by which the dispatcher and
  the claimer record the outcome of a dial are taken as accepted, and every other
  request as answered. Instants are milliseconds since the epoch; the clock is read once
  per invocation. Strings are byte lists (UTF-8).
\<close>

type_synonym user_id = string
type_synonym instant = int

subsection \<open>JavaScript truthiness of nullable values\<close>

definition truthy_str :: "string option \<Rightarrow> bool" where
  "truthy_str v = (case v of None \<Rightarrow> False | Some s \<Rightarrow> s \<noteq> [])"

definition truthy_num :: "int option \<Rightarrow> bool" where
  "truthy_num v = (case v of None \<Rightarrow> False | Some n \<Rightarrow> n \<noteq> 0)"

text \<open>\<^verbatim>\<open>a || b\<close> on nullable strings.\<close>

definition or_str :: "string option \<Rightarrow> string option \<Rightarrow> string option" where
  "or_str a b = (if truthy_str a then a else b)"

text \<open>\<^verbatim>\<open>(typeof a === "number" && a) || (typeof b === "number" && b) || null\<close>\<close>

definition num_or :: "int option \<Rightarrow> int option \<Rightarrow> int option" where
  "num_or a b = (if truthy_num a then a else if truthy_num b then b else None)"

fun digit_char :: "nat \<Rightarrow> char" where
  "digit_char n = char_of (48 + n)"

fun string_of_nat :: "nat \<Rightarrow> string" where
  "string_of_nat n = (if n < 10 then [digit_char n]
                      else string_of_nat (n div 10) @ [digit_char (n mod 10)])"

definition lower_char :: "char \<Rightarrow> char" where
  "lower_char c = (let n = (of_char c :: nat)
                   in if 65 \<le> n \<and> n \<le> 90 then char_of (n + 32) else c)"

definition toLowerCase :: "string \<Rightarrow> string" where
  "toLowerCase s = map lower_char s"

subsection \<open>Call rows\<close>

datatype call_status = Queued | Dialing | In_progress | Completed | Failed

datatype call_origin = Manual | Scheduled

record call =
  call_id :: nat
  clerk_user_id :: user_id
  timestamp_id :: nat
  scheduled_call_id :: "nat option"
  origin :: call_origin
  status :: call_status
  to_number_e164 :: string
  eleven_conversation_id :: "string option"
  twilio_call_sid :: "string option"
  created_at :: "instant option"
  started_at :: "instant option"
  ended_at :: "instant option"
  duration_seconds :: "int option"
  failure_reason :: "string option"

text \<open>The filter \<^verbatim>\<open>status=in.(queued,dialing,in_progress)\<close>.\<close>

definition active :: "call \<Rightarrow> bool" where
  "active c = (status c = Queued \<or> status c = Dialing \<or> status c = In_progress)"

text \<open>\<^verbatim>\<open>PATCH /calls?id=eq.<id>\<close>: the update is applied to every row with that id.\<close>

definition patch_call :: "nat \<Rightarrow> (call \<Rightarrow> call) \<Rightarrow> call list \<Rightarrow> call list" where
  "patch_call i f cs = map (\<lambda>r. if call_id r = i then f r else r) cs"

subsection \<open>Reconciliation of stuck calls (calls/route.ts, reconcileStuckCalls)\<close>

text \<open>What an awaited request to the store gives: the request rejects (the \<^verbatim>\<open>await\<close>
  throws), or the store answers with a status that is not 2xx, or with 2xx.\<close>

datatype answer = Request_rejects | Answered_not_ok | Answered_ok

text \<open>An expression of the source either throws or returns a value.\<close>

datatype 'a result = Throws | Returns 'a

text \<open>The provider's answer to a conversation query: the HTTP status and the fields of
  the body that the source reads, in both naming conventions. \<open>el_json\<close> is \<open>None\<close> when
  the body is not JSON, so that \<^verbatim>\<open>await elRes.json()\<close> throws. The query itself is a
  function from the conversation id to the answer, \<open>None\<close> when the request rejects.\<close>

record el_details =
  call_duration_secs :: "int option"
  callDurationSecs :: "int option"
  start_time_unix_secs :: "int option"
  startTimeUnixSecs :: "int option"
  end_time_unix_secs :: "int option"
  endTimeUnixSecs :: "int option"
  d_status :: "string option"
  conversation_status :: "string option"

record el_response =
  el_status :: nat
  el_json :: "el_details option"

definition el_ok :: "el_response \<Rightarrow> bool" where
  "el_ok r = (200 \<le> el_status r \<and> el_status r \<le> 299)"

definition STALE_MS :: int where
  "STALE_MS = 12 * 60 * 1000"

text \<open>\<^verbatim>\<open>startedIso = c.started_at || c.created_at\<close>, then its time in milliseconds.\<close>

definition startedAt :: "call \<Rightarrow> instant option" where
  "startedAt c = (case started_at c of Some t \<Rightarrow> Some t | None \<Rightarrow> created_at c)"

text \<open>\<^verbatim>\<open>isStale = startedAt ? now - startedAt > STALE_MS : true\<close>; a start time of 0 is falsy.\<close>

definition isStale :: "instant \<Rightarrow> call \<Rightarrow> bool" where
  "isStale now c = (case startedAt c of
       None \<Rightarrow> True
     | Some t \<Rightarrow> (if t = 0 then True else now - t > STALE_MS))"

definition ended_keywords :: "string list" where
  "ended_keywords = [''completed'', ''ended'', ''done'', ''finished'']"

definition statusText :: "el_details \<Rightarrow> string" where
  "statusText d = toLowerCase
     (case or_str (d_status d) (conversation_status d) of None \<Rightarrow> [] | Some s \<Rightarrow> s)"

definition looksEnded :: "call \<Rightarrow> el_details \<Rightarrow> bool" where
  "looksEnded c d =
     (let callDuration = num_or (call_duration_secs d) (callDurationSecs d);
          startUnix = num_or (start_time_unix_secs d) (startTimeUnixSecs d);
          endUnix = num_or (end_time_unix_secs d) (endTimeUnixSecs d)
      in (callDuration \<noteq> None \<and> (startUnix \<noteq> None \<or> startedAt c \<noteq> None))
         \<or> endUnix \<noteq> None
         \<or> statusText d \<in> set ended_keywords)"

text \<open>\<^verbatim>\<open>new Date(ms).toISOString()\<close> throws a RangeError when \<open>ms\<close> is outside the range
  of dates, which is 8.64e15 milliseconds either side of the epoch.\<close>

definition toISOString :: "int \<Rightarrow> instant result" where
  "toISOString ms =
     (if - 8640000000000000 \<le> ms \<and> ms \<le> 8640000000000000 then Returns ms else Throws)"

definition endedAtIso :: "instant \<Rightarrow> call \<Rightarrow> el_details \<Rightarrow> instant option result" where
  "endedAtIso now c d =
     (let callDuration = num_or (call_duration_secs d) (callDurationSecs d);
          startUnix = num_or (start_time_unix_secs d) (startTimeUnixSecs d);
          endUnix = num_or (end_time_unix_secs d) (endTimeUnixSecs d);
          iso = (\<lambda>ms. case toISOString ms of Throws \<Rightarrow> Throws | Returns t \<Rightarrow> Returns (Some t))
      in case endUnix of
           Some e \<Rightarrow> iso (e * 1000)
         | None \<Rightarrow>
            (case (startUnix, callDuration) of
               (Some s, Some k) \<Rightarrow> iso ((s + k) * 1000)
             | _ \<Rightarrow>
               (case (startedAt c, callDuration) of
                  (Some s, Some k) \<Rightarrow> iso (s + k * 1000)
                | _ \<Rightarrow> Returns (if isStale now c then Some now else None))))"

text \<open>\<open>durationSecs\<close>, given the \<open>endedAtIso\<close> that was computed.\<close>

definition durationSecs :: "call \<Rightarrow> el_details \<Rightarrow> instant option \<Rightarrow> int option" where
  "durationSecs c d ended =
     (case num_or (call_duration_secs d) (callDurationSecs d) of
        Some k \<Rightarrow> Some (max 0 k)
      | None \<Rightarrow>
         (case (startedAt c, ended) of
            (Some s, Some e) \<Rightarrow> Some (max 0 ((e - s) div 1000))
          | _ \<Rightarrow> None))"

text \<open>What one iteration of the loop decides for the fetched row \<open>c\<close>, up to its PATCH:
  the outcome, or the iteration throws (the provider request rejects, the body of a 2xx
  answer other than 404 does not parse, or the end date is out of range).\<close>

datatype outcome =
    Complete "instant option" "int option"
  | Fail string
  | Untouched

definition decide ::
  "instant \<Rightarrow> (string \<Rightarrow> el_response option) \<Rightarrow> call \<Rightarrow> outcome result" where
  "decide now el c =
     (case (if truthy_str (eleven_conversation_id c) then eleven_conversation_id c else None) of
        None \<Rightarrow>
        Returns (if isStale now c then Fail ''stale_no_conversation_id'' else Untouched)
      | Some convoId \<Rightarrow>
        (case el convoId of
           None \<Rightarrow> Throws
         | Some elRes \<Rightarrow>
            if el_status elRes = 404 then
              Returns (if isStale now c then Fail ''stale_conversation_not_found'' else Untouched)
            else if \<not> el_ok elRes then
              Returns (if isStale now c
                       then Fail (''stale_eleven_error_'' @ string_of_nat (el_status elRes))
                       else Untouched)
            else (case el_json elRes of
                    None \<Rightarrow> Throws
                  | Some details \<Rightarrow>
                     if looksEnded c details then
                       (case endedAtIso now c details of
                          Throws \<Rightarrow> Throws
                        | Returns ended \<Rightarrow>
                           Returns (Complete ended (durationSecs c details ended)))
                     else Returns (if isStale now c then Fail ''stale_unknown_state''
                                   else Untouched))))"

text \<open>The body of the PATCH that the iteration sends.\<close>

fun apply_outcome :: "instant \<Rightarrow> outcome \<Rightarrow> call \<Rightarrow> call" where
  "apply_outcome now (Fail reason) r =
     r\<lparr>status := Failed, ended_at := Some now, failure_reason := Some reason\<rparr>"
| "apply_outcome now (Complete e d) r =
     r\<lparr>status := Completed, ended_at := e, duration_seconds := d, failure_reason := None\<rparr>"
| "apply_outcome now Untouched r = r"

text \<open>The query \<^verbatim>\<open>order=created_at.desc&limit=3\<close>: newest first, rows without a
  creation time first (the store's descending order), ties in store order.\<close>

definition created_desc_key :: "call \<Rightarrow> nat \<times> int" where
  "created_desc_key c = (case created_at c of None \<Rightarrow> (0, 0) | Some t \<Rightarrow> (1, - t))"

definition fetch_active :: "user_id \<Rightarrow> call list \<Rightarrow> call list" where
  "fetch_active u cs =
     take 3 (sort_key created_desc_key (filter (\<lambda>c. clerk_user_id c = u \<and> active c) cs))"

text \<open>The loop over the fetched rows, on the stored calls \<open>cs\<close>. \<open>patch i\<close> is the store's
  answer to the PATCH of the row with id \<open>i\<close>; the source awaits it and drops the
  response, so an answer that is not 2xx changes nothing and the loop goes on. No PATCH
  is sent for a row that is left untouched. The loop has no try/catch: the first
  iteration that throws ends it, with the rows after it not looked at. The result is the
  stored calls and whether the loop threw.\<close>

fun reconcile_loop ::
  "instant \<Rightarrow> (string \<Rightarrow> el_response option) \<Rightarrow> (nat \<Rightarrow> answer) \<Rightarrow> call list \<Rightarrow> call list
   \<Rightarrow> call list \<times> bool" where
  "reconcile_loop now el patch [] cs = (cs, False)"
| "reconcile_loop now el patch (c # rows) cs =
     (case decide now el c of
        Throws \<Rightarrow> (cs, True)
      | Returns oc \<Rightarrow>
         if oc = Untouched then reconcile_loop now el patch rows cs
         else (case patch (call_id c) of
                 Request_rejects \<Rightarrow> (cs, True)
               | Answered_not_ok \<Rightarrow> reconcile_loop now el patch rows cs
               | Answered_ok \<Rightarrow>
                  reconcile_loop now el patch rows
                    (patch_call (call_id c) (apply_outcome now oc) cs)))"

text \<open>\<open>fetch\<close> is the store's answer to the query for the active rows: the pass throws
  when the request rejects and returns at once when the answer is not 2xx.\<close>

definition reconcileStuckCalls ::
  "user_id \<Rightarrow> answer \<Rightarrow> instant \<Rightarrow> (string \<Rightarrow> el_response option) \<Rightarrow> (nat \<Rightarrow> answer)
   \<Rightarrow> call list \<Rightarrow> call list \<times> bool" where
  "reconcileStuckCalls u fetch now el patch cs =
     (case fetch of
        Request_rejects \<Rightarrow> (cs, True)
      | Answered_not_ok \<Rightarrow> (cs, False)
      | Answered_ok \<Rightarrow> reconcile_loop now el patch (fetch_active u cs) cs)"

text \<open>The iteration for the fetched row \<open>c\<close> throws: before its PATCH, or because the
  PATCH request rejects.\<close>

definition row_throws ::
  "instant \<Rightarrow> (string \<Rightarrow> el_response option) \<Rightarrow> (nat \<Rightarrow> answer) \<Rightarrow> call \<Rightarrow> bool" where
  "row_throws now el patch c =
     (case decide now el c of
        Throws \<Rightarrow> True
      | Returns oc \<Rightarrow> oc \<noteq> Untouched \<and> patch (call_id c) = Request_rejects)"

text \<open>The fetched rows whose iteration runs to its end: the ones before the first that
  throws.\<close>

definition reached ::
  "instant \<Rightarrow> (string \<Rightarrow> el_response option) \<Rightarrow> (nat \<Rightarrow> answer) \<Rightarrow> call list \<Rightarrow> call list" where
  "reached now el patch rows = takeWhile (\<lambda>c. \<not> row_throws now el patch c) rows"

text \<open>What the iteration for the fetched row \<open>c\<close> makes of a stored row \<open>r\<close> with the id of
  \<open>c\<close>: the decided outcome when the store accepts the PATCH, nothing otherwise.\<close>

definition row_patch ::
  "instant \<Rightarrow> (string \<Rightarrow> el_response option) \<Rightarrow> (nat \<Rightarrow> answer) \<Rightarrow> call \<Rightarrow> call \<Rightarrow> call" where
  "row_patch now el patch c r =
     (case decide now el c of
        Throws \<Rightarrow> r
      | Returns oc \<Rightarrow> if patch (call_id c) = Answered_ok then apply_outcome now oc r else r)"

text \<open>The place of two rows in the order \<^verbatim>\<open>created_at.desc\<close>: \<open>c\<close> is not after \<open>d\<close> when
  \<open>c\<close> has no creation time, or both have one and that of \<open>d\<close> is not later.\<close>

definition not_after :: "call \<Rightarrow> call \<Rightarrow> bool" where
  "not_after c d =
     (case created_at c of
        None \<Rightarrow> True
      | Some t \<Rightarrow> (case created_at d of None \<Rightarrow> False | Some t' \<Rightarrow> t' \<le> t))"

definition lookup_call :: "nat \<Rightarrow> call list \<Rightarrow> call option" where
  "lookup_call i cs = find (\<lambda>r. call_id r = i) cs"

subsection \<open>Profiles and the store\<close>

datatype SetupStatus = New | Voice_uploaded | Voice_created | Agent_created | Ready | Error

record profile =
  phone_e164 :: "string option"
  setup_status :: SetupStatus
  eleven_voice_id :: "string option"
  eleven_agent_id :: "string option"

datatype sched_status = Pending | Executing | Executed | Sched_failed | Canceled

record scheduled_call =
  sc_id :: nat
  sc_clerk_user_id :: user_id
  sc_timestamp_id :: nat
  scheduled_for :: instant
  sc_status :: sched_status
  attempt_count :: "int option"
  last_attempt_at :: "instant option"
  executed_at :: "instant option"
  sc_failure_reason :: "string option"
  sc_updated_at :: "instant option"

text \<open>The collections the core reads and writes. \<open>latest_timestamp\<close> is the id of the
  user's newest timestamps row, if any.\<close>

record store =
  profiles :: "user_id \<Rightarrow> profile option"
  latest_timestamp :: "user_id \<Rightarrow> nat option"
  calls :: "call list"
  scheduled_calls :: "scheduled_call list"

text \<open>The store numbers a new calls row; \<open>created_at\<close> is filled by the store.\<close>

definition fresh_call_id :: "call list \<Rightarrow> nat" where
  "fresh_call_id cs = Suc (foldr max (map call_id cs) 0)"

definition queued_row ::
  "nat \<Rightarrow> user_id \<Rightarrow> nat \<Rightarrow> nat option \<Rightarrow> call_origin \<Rightarrow> string \<Rightarrow> instant \<Rightarrow> call" where
  "queued_row i u ts sched orig num now =
     \<lparr>call_id = i, clerk_user_id = u, timestamp_id = ts, scheduled_call_id = sched,
      origin = orig, status = Queued, to_number_e164 = num,
      eleven_conversation_id = None, twilio_call_sid = None, created_at = Some now,
      started_at = None, ended_at = None, duration_seconds = None, failure_reason = None\<rparr>"

text \<open>The answer to \<^verbatim>\<open>POST /calls?select=id\<close>: not 2xx, or the row is stored and its id
  comes back, or the row is stored and no id comes back.\<close>

datatype insert_result = Insert_rejected string | Inserted | Inserted_without_id

subsection \<open>The call dispatcher (calls/route.ts, POST)\<close>

text \<open>The outbound-call request: it rejects (caught by the handler), or answers with a
  status that is not 2xx and a body, or is accepted with the conversation id and call
  sid of the body.\<close>

datatype dial_result =
    Dial_threw "string option"
  | Dial_rejected nat string
  | Dial_accepted "string option" "string option"

record call_env =
  auth_user :: "string option"
  active_fetch :: answer
  el_query :: "string \<Rightarrow> el_response option"
  reconcile_patch :: "nat \<Rightarrow> answer"
  profile_fetch_ok :: bool
  timestamp_fetch_ok :: bool
  active_check_ok :: bool
  call_insert :: insert_result
  dial :: dial_result

text \<open>The answers of the handler; \<open>Handler_threw\<close> is the handler ending by an exception
  that nothing catches (the reconciliation pass threw), which the framework answers with
  status 500.\<close>

datatype start_result =
    Handler_threw
  | Unauthorized
  | Failed_to_fetch_profile
  | Profile_not_found
  | Not_ready
  | Missing_phone
  | Failed_to_fetch_timestamp
  | No_timestamp_found
  | Failed_to_check_active_calls
  | ActiveCallExists call
  | Failed_to_create_call_row string
  | No_call_id_returned
  | Outbound_call_failed string
  | Call_initiation_crashed "string option"
  | Call_started nat "string option" "string option" string

fun http_status :: "start_result \<Rightarrow> nat" where
  "http_status Handler_threw = 500"
| "http_status Unauthorized = 401"
| "http_status Failed_to_fetch_profile = 500"
| "http_status Profile_not_found = 400"
| "http_status Not_ready = 400"
| "http_status Missing_phone = 400"
| "http_status Failed_to_fetch_timestamp = 500"
| "http_status No_timestamp_found = 400"
| "http_status Failed_to_check_active_calls = 500"
| "http_status (ActiveCallExists a) = 409"
| "http_status (Failed_to_create_call_row t) = 500"
| "http_status No_call_id_returned = 500"
| "http_status (Outbound_call_failed t) = 500"
| "http_status (Call_initiation_crashed m) = 500"
| "http_status (Call_started i c sid n) = 200"

text \<open>Step 5: dial, then record the answer on the row \<open>callId\<close>.\<close>

definition dial_and_record ::
  "dial_result \<Rightarrow> instant \<Rightarrow> nat \<Rightarrow> string \<Rightarrow> call list \<Rightarrow> start_result \<times> call list" where
  "dial_and_record d now callId toNumber cs =
     (case d of
        Dial_rejected st text \<Rightarrow>
          (Outbound_call_failed text,
           patch_call callId (\<lambda>r. r\<lparr>status := Failed, failure_reason := Some text\<rparr>) cs)
      | Dial_accepted conv sid \<Rightarrow>
          (let conversationId = (if truthy_str conv then conv else None);
               callSid = (if truthy_str sid then sid else None)
           in (Call_started callId conversationId callSid toNumber,
               patch_call callId (\<lambda>r. r\<lparr>status := Dialing, started_at := Some now,
                                          eleven_conversation_id := conversationId,
                                          twilio_call_sid := callSid\<rparr>) cs))
      | Dial_threw msg \<Rightarrow>
          (Call_initiation_crashed msg,
           patch_call callId (\<lambda>r. r\<lparr>status := Failed,
              failure_reason := (if truthy_str msg then msg else Some ''unknown_error'')\<rparr>) cs))"

text \<open>Step 3, the query for an active call of the user: the error response, or \<open>None\<close>
  when the user has none and the handler goes on.\<close>

definition active_check :: "call_env \<Rightarrow> user_id \<Rightarrow> call list \<Rightarrow> start_result option" where
  "active_check env userId cs =
     (if \<not> active_check_ok env then Some Failed_to_check_active_calls
      else case filter (\<lambda>c. clerk_user_id c = userId \<and> active c) cs of
        a # rest \<Rightarrow> Some (ActiveCallExists a)
      | [] \<Rightarrow> None)"

text \<open>Steps 4 and 5: insert the queued row and dial.\<close>

definition insert_and_dial ::
  "call_env \<Rightarrow> instant \<Rightarrow> user_id \<Rightarrow> string \<Rightarrow> nat \<Rightarrow> call list \<Rightarrow> start_result \<times> call list" where
  "insert_and_dial env now userId toNumber timestampId cs =
     (let callId = fresh_call_id cs;
          cs' = cs @ [queued_row callId userId timestampId None Manual toNumber now]
      in case call_insert env of
           Insert_rejected t \<Rightarrow> (Failed_to_create_call_row t, cs)
         | Inserted_without_id \<Rightarrow> (No_call_id_returned, cs')
         | Inserted \<Rightarrow> dial_and_record (dial env) now callId toNumber cs')"

text \<open>Steps 3 to 5 on the same stored calls, that is with no other request to the store
  between the check and the insert.\<close>

definition check_insert_dial ::
  "call_env \<Rightarrow> instant \<Rightarrow> user_id \<Rightarrow> string \<Rightarrow> nat \<Rightarrow> call list \<Rightarrow> start_result \<times> call list" where
  "check_insert_dial env now userId toNumber timestampId cs =
     (case active_check env userId cs of
        Some e \<Rightarrow> (e, cs)
      | None \<Rightarrow> insert_and_dial env now userId toNumber timestampId cs)"

text \<open>Steps 1 and 2: the profile must be ready with an agent id and a phone number, and
  the user must have a timestamp. The result is the error response, or the number to
  call and the timestamp id.\<close>

definition load_profile_and_timestamp ::
  "call_env \<Rightarrow> store \<Rightarrow> user_id \<Rightarrow> start_result + string \<times> nat" where
  "load_profile_and_timestamp env s userId =
     (if \<not> profile_fetch_ok env then Inl Failed_to_fetch_profile
      else case profiles s userId of
        None \<Rightarrow> Inl Profile_not_found
      | Some prof \<Rightarrow>
         (if setup_status prof \<noteq> Ready \<or> \<not> truthy_str (eleven_agent_id prof)
          then Inl Not_ready
          else case (if truthy_str (phone_e164 prof) then phone_e164 prof else None) of
            None \<Rightarrow> Inl Missing_phone
          | Some toNumber \<Rightarrow>
             (if \<not> timestamp_fetch_ok env then Inl Failed_to_fetch_timestamp
              else case latest_timestamp s userId of
                None \<Rightarrow> Inl No_timestamp_found
              | Some timestampId \<Rightarrow> Inr (toNumber, timestampId))))"

text \<open>The handler up to and including step 3: authentication, the reconciliation pass,
  steps 1 and 2 and the active-call check. The result is the response, or the user, the
  number and the timestamp id with which the handler goes on to insert.\<close>

definition startCall_checks ::
  "call_env \<Rightarrow> instant \<Rightarrow> store \<Rightarrow> (start_result + user_id \<times> string \<times> nat) \<times> store" where
  "startCall_checks env now s =
     (case (if truthy_str (auth_user env) then auth_user env else None) of
        None \<Rightarrow> (Inl Unauthorized, s)
      | Some userId \<Rightarrow>
         (case reconcileStuckCalls userId (active_fetch env) now (el_query env)
                 (reconcile_patch env) (calls s) of
            (cs, threw) \<Rightarrow>
              if threw then (Inl Handler_threw, s\<lparr>calls := cs\<rparr>)
              else case load_profile_and_timestamp env s userId of
                     Inl e \<Rightarrow> (Inl e, s\<lparr>calls := cs\<rparr>)
                   | Inr (toNumber, timestampId) \<Rightarrow>
                      (case active_check env userId cs of
                         Some e \<Rightarrow> (Inl e, s\<lparr>calls := cs\<rparr>)
                       | None \<Rightarrow> (Inr (userId, toNumber, timestampId), s\<lparr>calls := cs\<rparr>))))"

text \<open>The rest of the handler, steps 4 and 5, on the store as it is then.\<close>

definition startCall_insert ::
  "call_env \<Rightarrow> instant \<Rightarrow> user_id \<times> string \<times> nat \<Rightarrow> store \<Rightarrow> start_result \<times> store" where
  "startCall_insert env now d s =
     (case d of
        (userId, toNumber, timestampId) \<Rightarrow>
          (case insert_and_dial env now userId toNumber timestampId (calls s) of
             (res, cs') \<Rightarrow> (res, s\<lparr>calls := cs'\<rparr>)))"

text \<open>The handler when no other request reaches the store while it runs.\<close>

definition startCall :: "call_env \<Rightarrow> instant \<Rightarrow> store \<Rightarrow> start_result \<times> store" where
  "startCall env now s =
     (case startCall_checks env now s of
        (Inl res, s') \<Rightarrow> (res, s')
      | (Inr d, s') \<Rightarrow> startCall_insert env now d s')"

text \<open>Two requests whose handlers interleave: both run up to and including their
  active-call check before either inserts.\<close>

definition both_check_then_insert ::
  "call_env \<Rightarrow> instant \<Rightarrow> call_env \<Rightarrow> instant \<Rightarrow> store
   \<Rightarrow> (start_result \<times> start_result) \<times> store" where
  "both_check_then_insert envA nowA envB nowB s =
     (case startCall_checks envA nowA s of
        (a, s1) \<Rightarrow>
          (case startCall_checks envB nowB s1 of
             (b, s2) \<Rightarrow>
               (case (case a of Inl r \<Rightarrow> (r, s2) | Inr d \<Rightarrow> startCall_insert envA nowA d s2) of
                  (ra, s3) \<Rightarrow>
                    (case (case b of Inl r \<Rightarrow> (r, s3) | Inr d \<Rightarrow> startCall_insert envB nowB d s3) of
                       (rb, s4) \<Rightarrow> ((ra, rb), s4)))))"

subsection \<open>The scheduled-call claimer (future/route.ts)\<close>

definition markScheduled ::
  "nat \<Rightarrow> (scheduled_call \<Rightarrow> scheduled_call) \<Rightarrow> scheduled_call list \<Rightarrow> scheduled_call list" where
  "markScheduled i f rows = map (\<lambda>r. if sc_id r = i then f r else r) rows"

definition patchCall :: "nat \<Rightarrow> (call \<Rightarrow> call) \<Rightarrow> call list \<Rightarrow> call list" where
  "patchCall i f cs = patch_call i f cs"

text \<open>\<open>count_ok\<close> is whether the store answers the query; the query has \<open>limit=200\<close>.\<close>

definition countActiveCalls :: "bool \<Rightarrow> call list \<Rightarrow> int" where
  "countActiveCalls count_ok cs =
     (if \<not> count_ok then 0 else int (min 200 (length (filter active cs))))"

text \<open>The conditional PATCH \<^verbatim>\<open>/scheduled_calls?id=eq.<id>&status=eq.pending\<close> with
  \<^verbatim>\<open>Prefer: return=representation\<close>: one request, which the store executes as a whole.
  It returns the new store and the updated rows. \<open>row\<close> is the row as the select saw it.\<close>

definition claim_update :: "instant \<Rightarrow> scheduled_call \<Rightarrow> scheduled_call \<Rightarrow> scheduled_call" where
  "claim_update nowIso row r =
     r\<lparr>sc_status := Executing, last_attempt_at := Some nowIso,
       attempt_count := Some ((case attempt_count row of None \<Rightarrow> 0 | Some n \<Rightarrow> n) + 1)\<rparr>"

definition claim_patch ::
  "instant \<Rightarrow> scheduled_call \<Rightarrow> scheduled_call list \<Rightarrow> scheduled_call list \<times> scheduled_call list" where
  "claim_patch nowIso row rows =
     (map (\<lambda>r. if sc_id r = sc_id row \<and> sc_status r = Pending
                then claim_update nowIso row r else r) rows,
      map (claim_update nowIso row)
          (filter (\<lambda>r. sc_id r = sc_id row \<and> sc_status r = Pending) rows))"

text \<open>The select of the fallback: due pending rows, earliest first, at most \<open>limit\<close>.\<close>

definition select_due :: "instant \<Rightarrow> nat \<Rightarrow> scheduled_call list \<Rightarrow> scheduled_call list" where
  "select_due nowIso limit rows =
     take limit (sort_key scheduled_for
       (filter (\<lambda>r. sc_status r = Pending \<and> scheduled_for r \<le> nowIso) rows))"

text \<open>The loop over the selected rows. \<open>claim i\<close> is the store's answer to the PATCH for
  row \<open>i\<close>: a request that rejects throws, out of the loop and of the function; an answer
  that is not 2xx changes nothing and the loop goes on. The result is the table, the rows
  claimed so far, and whether the loop threw.\<close>

fun claim_loop ::
  "instant \<Rightarrow> (nat \<Rightarrow> answer) \<Rightarrow> scheduled_call list \<Rightarrow> scheduled_call list \<Rightarrow> scheduled_call list
   \<Rightarrow> scheduled_call list \<times> scheduled_call list \<times> bool" where
  "claim_loop nowIso claim [] rows claimed = (rows, claimed, False)"
| "claim_loop nowIso claim (row # due) rows claimed =
     (case claim (sc_id row) of
        Request_rejects \<Rightarrow> (rows, claimed, True)
      | Answered_not_ok \<Rightarrow> claim_loop nowIso claim due rows claimed
      | Answered_ok \<Rightarrow>
          (case claim_patch nowIso row rows of
             (rows', updated) \<Rightarrow>
               claim_loop nowIso claim due rows'
                 (case updated of [] \<Rightarrow> claimed | u # rest \<Rightarrow> claimed @ [u])))"

text \<open>Modelled from the spec: the store's remote procedure \<open>claim_due_scheduled_calls\<close>
  (a database function, not in src/): an atomic conditional update of due pending rows
  to executing, at most \<open>p_limit\<close> of them, returning the updated rows.\<close>

definition rpc_claim_due ::
  "instant \<Rightarrow> nat \<Rightarrow> scheduled_call list \<Rightarrow> scheduled_call list \<times> scheduled_call list" where
  "rpc_claim_due nowIso p_limit rows =
     (let due = select_due nowIso p_limit rows
      in (map (\<lambda>r. if r \<in> set due then r\<lparr>sc_status := Executing\<rparr> else r) rows,
          map (\<lambda>r. r\<lparr>sc_status := Executing\<rparr>) due))"

text \<open>The answers of the store to one invocation: to the remote procedure call, to the
  select of the fallback (\<open>due_fetch_ok\<close> is whether it is answered with 2xx; the function
  throws when it is not, and when the request rejects), and to the PATCH for each row.\<close>

record claim_env =
  rpc_answer :: answer
  due_fetch_ok :: bool
  claim_answer :: "nat \<Rightarrow> answer"

text \<open>The result is \<open>None\<close> when the function throws: a request rejects, or the select of
  the fallback fails. The rows that the loop has claimed before a throw stay executing.\<close>

definition claimDueScheduled ::
  "claim_env \<Rightarrow> instant \<Rightarrow> nat \<Rightarrow> scheduled_call list
   \<Rightarrow> scheduled_call list \<times> scheduled_call list option" where
  "claimDueScheduled env nowIso limit rows =
     (case rpc_answer env of
        Request_rejects \<Rightarrow> (rows, None)
      | Answered_ok \<Rightarrow>
          (case rpc_claim_due nowIso limit rows of (rows', jobs) \<Rightarrow> (rows', Some jobs))
      | Answered_not_ok \<Rightarrow>
          if \<not> due_fetch_ok env then (rows, None)
          else case claim_loop nowIso (claim_answer env) (select_due nowIso limit rows) rows [] of
            (rows', claimed, threw) \<Rightarrow> (rows', if threw then None else Some claimed))"

text \<open>What the claimer's dial gives: the request rejects, or answers with a status, the
  body text, and the conversation id and call sid read from the body (both absent when
  the body does not parse).\<close>

datatype job_dial =
    Job_dial_threw "string option"
  | Job_dial_response nat string "string option" "string option"

record job_env =
  prof_fetch_ok :: bool
  job_insert :: insert_result
  job_dial :: job_dial

text \<open>The try block of one job: \<open>Inl (reason, callId)\<close> is a throw, with the call row
  created so far.\<close>

definition try_job ::
  "job_env \<Rightarrow> instant \<Rightarrow> scheduled_call \<Rightarrow> store
   \<Rightarrow> ((string option \<times> nat option) + unit) \<times> store" where
  "try_job env nowIso job s =
     (case (if prof_fetch_ok env then profiles s (sc_clerk_user_id job) else None) of
        None \<Rightarrow> (Inl (Some ''profile_not_found'', None), s)
      | Some prof \<Rightarrow>
         if setup_status prof \<noteq> Ready then (Inl (Some ''profile_not_ready'', None), s)
         else if \<not> truthy_str (eleven_agent_id prof) then (Inl (Some ''missing_agent_id'', None), s)
         else case (if truthy_str (phone_e164 prof) then phone_e164 prof else None) of
           None \<Rightarrow> (Inl (Some ''missing_phone'', None), s)
         | Some phone \<Rightarrow>
            (let callId = fresh_call_id (calls s);
                 s' = s\<lparr>calls := calls s @
                        [queued_row callId (sc_clerk_user_id job) (sc_timestamp_id job)
                           (Some (sc_id job)) Scheduled phone nowIso]\<rparr>
             in case job_insert env of
                  Insert_rejected t \<Rightarrow> (Inl (Some (''call_row_insert_failed: '' @ t), None), s)
                | Inserted_without_id \<Rightarrow> (Inl (Some ''no_call_id_returned'', None), s')
                | Inserted \<Rightarrow>
                   (case job_dial env of
                      Job_dial_threw msg \<Rightarrow> (Inl (msg, Some callId), s')
                    | Job_dial_response st elText conv sid \<Rightarrow>
                       if \<not> (200 \<le> st \<and> st \<le> 299)
                       then (Inl (Some (''eleven_failed_'' @ string_of_nat st @ '': '' @ elText),
                                  Some callId), s')
                       else (Inr (),
                         s'\<lparr>calls := patchCall callId
                               (\<lambda>r. r\<lparr>status := Dialing, started_at := Some nowIso,
                                       eleven_conversation_id := conv, twilio_call_sid := sid\<rparr>)
                               (calls s'),
                            scheduled_calls := markScheduled (sc_id job)
                               (\<lambda>r. r\<lparr>sc_status := Executed, executed_at := Some nowIso,
                                       sc_failure_reason := None\<rparr>)
                               (scheduled_calls s')\<rparr>))))"

text \<open>One iteration of the loop over the claimed jobs, with its catch block. The result
  is whether \<open>processed\<close> is incremented.\<close>

definition process_job ::
  "string \<Rightarrow> job_env \<Rightarrow> instant \<Rightarrow> scheduled_call \<Rightarrow> store \<Rightarrow> bool \<times> store" where
  "process_job traceId env nowIso job s =
     (case try_job env nowIso job s of
        (Inr u, s') \<Rightarrow> (True, s')
      | (Inl (msg, callId), s') \<Rightarrow>
         (let reason = take 900 (case (if truthy_str msg then msg else None) of
                                   None \<Rightarrow> ''unknown_error'' | Some m \<Rightarrow> m);
              s'' = s'\<lparr>scheduled_calls := markScheduled (sc_id job)
                        (\<lambda>r. r\<lparr>sc_status := Sched_failed,
                                sc_failure_reason := Some (''['' @ traceId @ ''] '' @ reason)\<rparr>)
                        (scheduled_calls s')\<rparr>
          in case callId of
               None \<Rightarrow> (False, s'')
             | Some i \<Rightarrow>
                (False, s''\<lparr>calls := patchCall i
                    (\<lambda>r. r\<lparr>status := Failed, ended_at := Some nowIso,
                            failure_reason := Some reason\<rparr>) (calls s'')\<rparr>)))"

fun process_jobs ::
  "string \<Rightarrow> (nat \<Rightarrow> job_env) \<Rightarrow> instant \<Rightarrow> scheduled_call list \<Rightarrow> nat \<Rightarrow> store \<Rightarrow> nat \<times> store" where
  "process_jobs traceId envs nowIso [] processed s = (processed, s)"
| "process_jobs traceId envs nowIso (job # jobs) processed s =
     (case process_job traceId (envs (sc_id job)) nowIso job s of
        (ok, s') \<Rightarrow> process_jobs traceId envs nowIso jobs (if ok then Suc processed else processed) s')"

record cron_env =
  body_limit :: "int option"
  MAX_CONCURRENT_CALLS :: int
  count_ok :: bool
  claiming :: claim_env
  jobs_env :: "nat \<Rightarrow> job_env"
  traceId :: string

datatype cron_result = Busy | Claim_failed | Swept nat nat

text \<open>\<^verbatim>\<open>Math.max(1, Math.min(Number(body?.limit || 5), 25))\<close>\<close>

definition requestedLimit :: "int option \<Rightarrow> int" where
  "requestedLimit l = max 1 (min (if truthy_num l then (case l of Some n \<Rightarrow> n | None \<Rightarrow> 5) else 5) 25)"

definition runDueCalls :: "cron_env \<Rightarrow> instant \<Rightarrow> store \<Rightarrow> cron_result \<times> store" where
  "runDueCalls env nowIso s =
     (let active_n = countActiveCalls (count_ok env) (calls s);
          available = max 0 (MAX_CONCURRENT_CALLS env - active_n);
          limit = min (requestedLimit (body_limit env)) available
      in if limit \<le> 0 then (Busy, s)
         else case claimDueScheduled (claiming env) nowIso (nat limit) (scheduled_calls s) of
           (rows, None) \<Rightarrow> (Claim_failed, s\<lparr>scheduled_calls := rows\<rparr>)
         | (rows, Some jobs) \<Rightarrow>
            (case process_jobs (traceId env) (jobs_env env) nowIso jobs 0
                    (s\<lparr>scheduled_calls := rows\<rparr>) of
               (processed, s') \<Rightarrow> (Swept processed (length jobs), s')))"

subsection \<open>Concurrent claim attempts\<close>

text \<open>
  One invocation of \<open>claimDueScheduled\<close> reaches the store by single requests, each of
  which the store executes as a whole: the remote procedure, or the select of the
  fallback and then one conditional PATCH for each selected row. Between two requests of
  one invocation the store may execute requests of other invocations. An attempt is an
  invocation with its answers (\<open>at_env\<close>), its clock and its limit, and where it stands:
  not started, in the loop of the fallback with the selected rows still to do and the
  rows claimed so far, returned with its jobs, or thrown, with the rows it had claimed.
\<close>

datatype phase =
    Not_started
  | Patching "scheduled_call list" "scheduled_call list"
  | Returned "scheduled_call list"
  | Threw "scheduled_call list"

record attempt =
  at_env :: claim_env
  at_now :: instant
  at_limit :: nat
  at_phase :: phase

definition start_attempt :: "claim_env \<Rightarrow> instant \<Rightarrow> nat \<Rightarrow> attempt" where
  "start_attempt env nowIso limit =
     \<lparr>at_env = env, at_now = nowIso, at_limit = limit, at_phase = Not_started\<rparr>"

text \<open>The next request of an attempt, on the table as it is then. A remote procedure
  call that is answered with an error changes nothing, so it is one step with the select
  that follows it. The last step of the loop is the return.\<close>

definition attempt_step :: "attempt \<Rightarrow> scheduled_call list \<Rightarrow> attempt \<times> scheduled_call list" where
  "attempt_step a rows =
     (case at_phase a of
        Not_started \<Rightarrow>
          (case rpc_answer (at_env a) of
             Request_rejects \<Rightarrow> (a\<lparr>at_phase := Threw []\<rparr>, rows)
           | Answered_ok \<Rightarrow>
               (case rpc_claim_due (at_now a) (at_limit a) rows of
                  (rows', jobs) \<Rightarrow> (a\<lparr>at_phase := Returned jobs\<rparr>, rows'))
           | Answered_not_ok \<Rightarrow>
               if \<not> due_fetch_ok (at_env a) then (a\<lparr>at_phase := Threw []\<rparr>, rows)
               else (a\<lparr>at_phase := Patching (select_due (at_now a) (at_limit a) rows) []\<rparr>, rows))
      | Patching due claimed \<Rightarrow>
          (case due of
             [] \<Rightarrow> (a\<lparr>at_phase := Returned claimed\<rparr>, rows)
           | row # rest \<Rightarrow>
               (case claim_answer (at_env a) (sc_id row) of
                  Request_rejects \<Rightarrow> (a\<lparr>at_phase := Threw claimed\<rparr>, rows)
                | Answered_not_ok \<Rightarrow> (a\<lparr>at_phase := Patching rest claimed\<rparr>, rows)
                | Answered_ok \<Rightarrow>
                    (case claim_patch (at_now a) row rows of
                       (rows', updated) \<Rightarrow>
                         (a\<lparr>at_phase := Patching rest
                               (case updated of [] \<Rightarrow> claimed | u # us \<Rightarrow> claimed @ [u])\<rparr>,
                          rows'))))
      | Returned jobs \<Rightarrow> (a, rows)
      | Threw claimed \<Rightarrow> (a, rows))"

text \<open>\<open>n\<close> steps of one attempt with no request of another in between.\<close>

fun run_alone :: "nat \<Rightarrow> attempt \<Rightarrow> scheduled_call list \<Rightarrow> attempt \<times> scheduled_call list" where
  "run_alone 0 a rows = (a, rows)"
| "run_alone (Suc n) a rows = (case attempt_step a rows of (a', rows') \<Rightarrow> run_alone n a' rows')"

text \<open>Any number of attempts that run concurrently: a schedule names, for each request
  that reaches the store, the attempt it comes from.\<close>

fun run_interleaved ::
  "nat list \<Rightarrow> attempt list \<Rightarrow> scheduled_call list \<Rightarrow> attempt list \<times> scheduled_call list" where
  "run_interleaved [] atts rows = (atts, rows)"
| "run_interleaved (j # schedule) atts rows =
     (if j < length atts
      then (case attempt_step (atts ! j) rows of
              (a', rows') \<Rightarrow> run_interleaved schedule (atts[j := a']) rows')
      else run_interleaved schedule atts rows)"

text \<open>The rows an attempt has claimed: those that the store has updated for it and
  returned to it. An attempt that returns returns them as its jobs; one that throws
  returns nothing.\<close>

definition claimed_by :: "attempt \<Rightarrow> scheduled_call list" where
  "claimed_by a =
     (case at_phase a of
        Not_started \<Rightarrow> []
      | Patching due claimed \<Rightarrow> claimed
      | Returned jobs \<Rightarrow> jobs
      | Threw claimed \<Rightarrow> claimed)"

text \<open>How many times the attempts have claimed the row with id \<open>i\<close>, all together.\<close>

definition claims :: "nat \<Rightarrow> attempt list \<Rightarrow> nat" where
  "claims i atts = sum_list (map (\<lambda>a. length (filter (\<lambda>r. sc_id r = i) (claimed_by a))) atts)"

text \<open>What the invocation has given its caller: nothing yet, a throw (\<open>Some None\<close>), or
  its jobs.\<close>

definition outcome_of :: "attempt \<Rightarrow> scheduled_call list option option" where
  "outcome_of a =
     (case at_phase a of
        Not_started \<Rightarrow> None
      | Patching due claimed \<Rightarrow> None
      | Returned jobs \<Rightarrow> Some (Some jobs)
      | Threw claimed \<Rightarrow> Some None)"

definition returned :: "attempt \<Rightarrow> bool" where
  "returned a = (case at_phase a of Returned jobs \<Rightarrow> True | _ \<Rightarrow> False)"

text \<open>An attempt is after the row \<open>r\<close> of the table \<open>rows\<close>: its query for due rows, on
  that table, gives \<open>r\<close> (so \<open>r\<close> is pending, due at the attempt's clock and among the
  first \<open>limit\<close> such rows), and the store answers its requests for \<open>r\<close> with 2xx: the
  remote procedure, or else the select and the PATCH for \<open>r\<close>.\<close>

definition after_row :: "attempt \<Rightarrow> scheduled_call \<Rightarrow> scheduled_call list \<Rightarrow> bool" where
  "after_row a r rows =
     (r \<in> set (select_due (at_now a) (at_limit a) rows)
      \<and> (rpc_answer (at_env a) = Answered_ok
         \<or> (rpc_answer (at_env a) = Answered_not_ok \<and> due_fetch_ok (at_env a)
            \<and> claim_answer (at_env a) (sc_id r) = Answered_ok)))"

text \<open>What a request to the store does to a row: nothing, or it takes it from pending
  to executing and keeps its id and due time.\<close>

definition claims_only :: "(scheduled_call \<Rightarrow> scheduled_call) \<Rightarrow> bool" where
  "claims_only h =
     (\<forall>r. h r = r \<or> (sc_status r = Pending \<and> sc_status (h r) = Executing
                      \<and> sc_id (h r) = sc_id r \<and> scheduled_for (h r) = scheduled_for r))"

text \<open>Where an attempt that is after the row with id \<open>i\<close> stands, given whether that row
  is executing by now.\<close>

definition on_course :: "attempt \<Rightarrow> nat \<Rightarrow> bool \<Rightarrow> bool" where
  "on_course a i executing =
     (case at_phase a of
        Not_started \<Rightarrow> True
      | Patching due claimed \<Rightarrow>
          rpc_answer (at_env a) \<noteq> Answered_ok \<and> (i \<in> set (map sc_id due) \<or> executing)
      | Returned jobs \<Rightarrow> executing
      | Threw claimed \<Rightarrow> True)"

subsection \<open>Cancelling a scheduled call (calls/schedule route, DELETE)\<close>

datatype cancel_result = Not_authenticated | Call_ID_is_required | Failed_to_cancel | Cancel_success

text \<open>\<open>patch_ok\<close> is whether the store answers the PATCH
  \<^verbatim>\<open>/scheduled_calls?id=eq.<id>&clerk_user_id=eq.<user>\<close> with 2xx.\<close>

definition cancelScheduledCall ::
  "string option \<Rightarrow> nat option \<Rightarrow> bool \<Rightarrow> instant \<Rightarrow> scheduled_call list
   \<Rightarrow> cancel_result \<times> scheduled_call list" where
  "cancelScheduledCall auth_uid id_param patch_ok now rows =
     (case (if truthy_str auth_uid then auth_uid else None) of
        None \<Rightarrow> (Not_authenticated, rows)
      | Some userId \<Rightarrow>
         (case id_param of
            None \<Rightarrow> (Call_ID_is_required, rows)
          | Some callId \<Rightarrow>
             if \<not> patch_ok then (Failed_to_cancel, rows)
             else (Cancel_success,
                   map (\<lambda>r. if sc_id r = callId \<and> sc_clerk_user_id r = userId
                             then r\<lparr>sc_status := Canceled, sc_updated_at := Some now\<rparr>
                             else r) rows)))"

subsection \<open>The onboarding orchestrator (onboarding/process/route.ts)\<close>

record ExtractedReflection =
  goals :: "string list"
  fears :: "string list"
  situation :: string
  currentWork :: "string option"
  otherNotes :: "string option"

text \<open>\<^verbatim>\<open>Array.prototype.join\<close> and the filter \<^verbatim>\<open>Boolean\<close> on strings.\<close>

fun join :: "string \<Rightarrow> string list \<Rightarrow> string" where
  "join sep [] = []"
| "join sep [x] = x"
| "join sep (x # y # ys) = x @ sep @ join sep (y # ys)"

definition Boolean :: "string \<Rightarrow> bool" where
  "Boolean s = (s \<noteq> [])"

text \<open>The characters of the prompt outside ASCII, as UTF-8, and the two quote marks.\<close>

definition rsquo :: string where "rsquo = [CHR 0xE2, CHR 0x80, CHR 0x99]"
definition ldquo :: string where "ldquo = [CHR 0xE2, CHR 0x80, CHR 0x9C]"
definition rdquo :: string where "rdquo = [CHR 0xE2, CHR 0x80, CHR 0x9D]"
definition ndash :: string where "ndash = [CHR 0xE2, CHR 0x80, CHR 0x93]"
definition mdash :: string where "mdash = [CHR 0xE2, CHR 0x80, CHR 0x94]"
definition apos :: string where "apos = [CHR 0x27]"
definition dquote :: string where "dquote = [CHR 0x22]"

text \<open>The fixed lines of the prompt, before the empty ones are filtered out.\<close>

definition framing :: "string list" where
  "framing =
     [''You are the user, speaking across time.'',
      [],
      ''time_mode is: {{time_mode}}'',
      ''Rules:'',
      ''- If time_mode = '' @ dquote @ ''past'' @ dquote @
        '': you are the user at this snapshot calling your future self (the user now). Speak as if YOU are earlier in time.'',
      ''- If time_mode = '' @ dquote @ ''future'' @ dquote @ '': you are the user'' @ rsquo @
        ''s future self calling the user at this snapshot (their past self). Speak as if YOU are later in time.'',
      [],
      ''Stay natural and personal. No '' @ ldquo @ ''AI assistant'' @ rdquo @
        '' voice. Never mention prompts, systems, or that you are an AI.'',
      ''Ask 1'' @ ndash @ ''2 real questions and give 1'' @ ndash @ ''3 small, realistic next steps.'',
      [],
      ''Snapshot (ground truth'' @ mdash @ ''do not invent facts beyond this):'']"

definition snapshot_line :: "string option \<Rightarrow> string option \<Rightarrow> string" where
  "snapshot_line title snapshotDate =
     ''You are the user'' @ apos @ ''s '' @
     (case (if truthy_str title then title else None) of
        Some t \<Rightarrow> dquote @ t @ dquote | None \<Rightarrow> ''self'') @
     '' at '' @ (case snapshotDate of Some d \<Rightarrow> d | None \<Rightarrow> ''this date'') @ ''.''"

text \<open>The array that \<open>buildSystemPrompt\<close> joins, after \<^verbatim>\<open>.filter(Boolean)\<close>.\<close>

definition prompt_lines ::
  "string option \<Rightarrow> string option \<Rightarrow> ExtractedReflection option \<Rightarrow> string list" where
  "prompt_lines title snapshotDate reflection =
     (let goalsText = (case reflection of None \<Rightarrow> []
                       | Some r \<Rightarrow> join ''; '' (filter Boolean (goals r)));
          fearsText = (case reflection of None \<Rightarrow> []
                       | Some r \<Rightarrow> join ''; '' (filter Boolean (fears r)));
          situationText = (case reflection of None \<Rightarrow> [] | Some r \<Rightarrow> situation r);
          currentWorkText = (case reflection of None \<Rightarrow> []
                       | Some r \<Rightarrow> (case currentWork r of None \<Rightarrow> [] | Some w \<Rightarrow> w));
          otherNotesText = (case reflection of None \<Rightarrow> []
                       | Some r \<Rightarrow> (case otherNotes r of None \<Rightarrow> [] | Some n \<Rightarrow> n))
      in filter Boolean
           (framing @
            [snapshot_line title snapshotDate,
             if Boolean goalsText then ''Goals: '' @ goalsText else [],
             if Boolean fearsText then ''Fears: '' @ fearsText else [],
             if Boolean situationText then ''Situation: '' @ situationText else [],
             if Boolean currentWorkText then ''Current work/school: '' @ currentWorkText else [],
             if Boolean otherNotesText then ''Other notes: '' @ otherNotesText else []]))"

definition buildSystemPrompt ::
  "string option \<Rightarrow> string option \<Rightarrow> ExtractedReflection option \<Rightarrow> string" where
  "buildSystemPrompt title snapshotDate reflection =
     join [CHR 0x0A] (prompt_lines title snapshotDate reflection)"

record Body =
  voiceSamplePath :: "string option"
  timestampId :: "string option"
  agentName :: "string option"

text \<open>The answers of \<^verbatim>\<open>voices/add\<close> and \<^verbatim>\<open>agents/create\<close>: not 2xx with the body text,
  or a body with its \<open>voice_id\<close>, or with its \<open>agent_id\<close> and \<open>agentId\<close>.\<close>

datatype voice_answer = Voice_rejected string | Voice_json "string option"

datatype agent_answer = Agent_rejected string | Agent_json "string option" "string option"

text \<open>\<open>ob_tsMeta\<close> is the title and snapshot date of the timestamp row when the query for
  it finds one. \<open>stt\<close> and \<open>openai\<close> are the transcript and the extracted reflection, or
  \<open>None\<close> when the helper throws. \<open>timestamp_patch_rejects\<close> is whether the PATCH of the
  timestamps row, which is inside the try block, rejects. \<open>status_patch st\<close> is the
  store's answer to the PATCH of the profile that sets the status \<open>st\<close>; a run sends at
  most one PATCH for each status.\<close>

record onboarding_env =
  ob_userId :: "string option"
  ob_body :: "Body option"
  ob_profile_fetch_ok :: bool
  ob_tsMeta :: "(string option \<times> string option) option"
  signed_ok :: bool
  audio_ok :: bool
  stt :: "string option"
  openai :: "ExtractedReflection option"
  timestamp_patch_rejects :: bool
  voice_add :: voice_answer
  agent_create :: agent_answer
  status_patch :: "SetupStatus \<Rightarrow> answer"

text \<open>What a run does besides answering: each PATCH of the profile that the store
  accepts (with the row as it is after the PATCH), each one that it answers otherwise
  and each one whose request rejects (with the status asked for), and each request to
  storage, transcription, extraction, the timestamps table, voice cloning (with the
  name) and agent creation (with the name, the voice id and the system prompt).\<close>

datatype event =
    Set_status profile
  | Status_refused SetupStatus
  | Status_rejected SetupStatus
  | Sign_url
  | Download_audio
  | Speech_to_text
  | Extract_reflection
  | Patch_timestamp
  | Voice_clone string
  | Agent_creation string string string

text \<open>\<open>Ob_threw\<close> is the handler ending by a throw that nothing catches.\<close>

datatype onboarding_result =
    Ob_threw
  | Ob_unauthorized
  | Missing_voiceSamplePath
  | Ob_failed_to_fetch_profile
  | Ob_profile_not_found
  | Already_ready string string
  | Failed_to_create_signed_URL
  | Failed_to_download_audio
  | Voice_create_failed string
  | No_voice_id_returned
  | Agent_create_failed string
  | No_agent_id_returned
  | Onboarded string string "string option" "ExtractedReflection option"

text \<open>The stored row, what the run has done, and whether the handler has thrown. Outside
  the try block of step 3 nothing catches, so once it has thrown no later step does
  anything and the answer is the throw.\<close>

record ob_state =
  prof :: profile
  log :: "event list"
  thrown :: bool

text \<open>The source awaits the PATCH and drops the response: a PATCH that the store
  answers without accepting it leaves the row as it is, and the run goes on all the
  same. A PATCH whose request rejects throws.\<close>

definition updateProfileStatus ::
  "onboarding_env \<Rightarrow> SetupStatus \<Rightarrow> (profile \<Rightarrow> profile) \<Rightarrow> ob_state \<Rightarrow> ob_state" where
  "updateProfileStatus env st extraFields \<sigma> =
     (if thrown \<sigma> then \<sigma>
      else case status_patch env st of
             Request_rejects \<Rightarrow> \<sigma>\<lparr>log := log \<sigma> @ [Status_rejected st], thrown := True\<rparr>
           | Answered_not_ok \<Rightarrow> \<sigma>\<lparr>log := log \<sigma> @ [Status_refused st]\<rparr>
           | Answered_ok \<Rightarrow>
               (let p = extraFields ((prof \<sigma>)\<lparr>setup_status := st\<rparr>)
                in \<sigma>\<lparr>prof := p, log := log \<sigma> @ [Set_status p]\<rparr>))"

text \<open>Any other request of the run, which is sent unless the handler has thrown.\<close>

definition request :: "event \<Rightarrow> ob_state \<Rightarrow> ob_state" where
  "request e \<sigma> = (if thrown \<sigma> then \<sigma> else \<sigma>\<lparr>log := log \<sigma> @ [e]\<rparr>)"

text \<open>Step 5: create the agent, then mark the profile ready with the agent id.\<close>

definition create_agent ::
  "onboarding_env \<Rightarrow> string \<Rightarrow> string \<Rightarrow> string \<Rightarrow> string \<Rightarrow> ExtractedReflection option
   \<Rightarrow> ob_state \<Rightarrow> onboarding_result \<times> ob_state" where
  "create_agent env name voiceId systemPrompt transcript extracted \<sigma> =
     (let \<sigma>1 = request (Agent_creation name voiceId systemPrompt) \<sigma>
      in case agent_create env of
           Agent_rejected text \<Rightarrow> (Agent_create_failed text, updateProfileStatus env Error id \<sigma>1)
         | Agent_json agent_id agentId \<Rightarrow>
            (case (if truthy_str (or_str agent_id agentId) then or_str agent_id agentId else None) of
               None \<Rightarrow> (No_agent_id_returned, updateProfileStatus env Error id \<sigma>1)
             | Some a \<Rightarrow>
                (Onboarded voiceId a
                   (if transcript \<noteq> [] then Some (take 180 transcript) else None) extracted,
                 updateProfileStatus env Ready (\<lambda>p. p\<lparr>eleven_agent_id := Some a\<rparr>) \<sigma>1)))"

text \<open>Step 4: clone the voice, then mark agent_created with the voice id.\<close>

definition clone_voice ::
  "onboarding_env \<Rightarrow> string \<Rightarrow> string \<Rightarrow> string \<Rightarrow> ExtractedReflection option
   \<Rightarrow> ob_state \<Rightarrow> onboarding_result \<times> ob_state" where
  "clone_voice env name systemPrompt transcript extracted \<sigma> =
     (let \<sigma>1 = request (Voice_clone name) (updateProfileStatus env Voice_created id \<sigma>)
      in case voice_add env of
           Voice_rejected text \<Rightarrow> (Voice_create_failed text, updateProfileStatus env Error id \<sigma>1)
         | Voice_json voice_id \<Rightarrow>
            (case (if truthy_str voice_id then voice_id else None) of
               None \<Rightarrow> (No_voice_id_returned, updateProfileStatus env Error id \<sigma>1)
             | Some voiceId \<Rightarrow>
                create_agent env name voiceId systemPrompt transcript extracted
                  (updateProfileStatus env Agent_created
                     (\<lambda>p. p\<lparr>eleven_voice_id := Some voiceId\<rparr>) \<sigma>1)))"

text \<open>Step 3, the try block and its catch: the transcript and the extracted reflection.
  A throw of the transcription leaves the transcript empty; a throw of the extraction,
  or of the PATCH of the timestamps row after it, leaves the reflection null.\<close>

definition transcribe_and_extract ::
  "onboarding_env \<Rightarrow> bool \<Rightarrow> ob_state \<Rightarrow> (string \<times> ExtractedReflection option) \<times> ob_state" where
  "transcribe_and_extract env has_timestamp \<sigma> =
     (let \<sigma>1 = request Speech_to_text \<sigma>
      in case stt env of
           None \<Rightarrow> (([], None), \<sigma>1)
         | Some transcript \<Rightarrow>
            (let \<sigma>2 = request Extract_reflection \<sigma>1
             in case openai env of
                  None \<Rightarrow> ((transcript, None), \<sigma>2)
                | Some extracted \<Rightarrow>
                   if \<not> has_timestamp then ((transcript, Some extracted), \<sigma>2)
                   else if timestamp_patch_rejects env
                     then ((transcript, None), request Patch_timestamp \<sigma>2)
                     else ((transcript, Some extracted), request Patch_timestamp \<sigma>2)))"

text \<open>Everything after the idempotency check.\<close>

definition run_pipeline ::
  "onboarding_env \<Rightarrow> string \<Rightarrow> Body \<Rightarrow> ob_state \<Rightarrow> onboarding_result \<times> ob_state" where
  "run_pipeline env userId body \<sigma> =
     (let tsMeta = (if truthy_str (timestampId body) then ob_tsMeta env else None);
          name = (case (if truthy_str (agentName body) then agentName body else None) of
                    Some n \<Rightarrow> n | None \<Rightarrow> ''FutureSelf-'' @ take 8 userId);
          \<sigma>1 = request Sign_url (updateProfileStatus env Voice_uploaded id \<sigma>)
      in if \<not> signed_ok env then (Failed_to_create_signed_URL, updateProfileStatus env Error id \<sigma>1)
         else let \<sigma>2 = request Download_audio \<sigma>1
           in if \<not> audio_ok env then (Failed_to_download_audio, updateProfileStatus env Error id \<sigma>2)
              else case transcribe_and_extract env (truthy_str (timestampId body)) \<sigma>2 of
                ((transcript, extracted), \<sigma>3) \<Rightarrow>
                  clone_voice env name
                    (buildSystemPrompt (case tsMeta of None \<Rightarrow> None | Some m \<Rightarrow> fst m)
                       (case tsMeta of None \<Rightarrow> None | Some m \<Rightarrow> snd m) extracted)
                    transcript extracted \<sigma>3)"

text \<open>The idempotency check: the ids to return when the profile is ready with both.\<close>

definition already_ready :: "profile \<Rightarrow> (string \<times> string) option" where
  "already_ready p =
     (case (eleven_voice_id p, eleven_agent_id p) of
        (Some v, Some a) \<Rightarrow>
          if setup_status p = Ready \<and> a \<noteq> [] \<and> v \<noteq> [] then Some (v, a) else None
      | _ \<Rightarrow> None)"

text \<open>The handler: the answer, what the run did, and the stored profile afterwards.\<close>

definition processOnboarding ::
  "onboarding_env \<Rightarrow> profile option \<Rightarrow> onboarding_result \<times> event list \<times> profile option" where
  "processOnboarding env stored =
     (case (if truthy_str (ob_userId env) then ob_userId env else None) of
        None \<Rightarrow> (Ob_unauthorized, [], stored)
      | Some userId \<Rightarrow>
         (case (case ob_body env of None \<Rightarrow> None
                | Some b \<Rightarrow> if truthy_str (voiceSamplePath b) then Some b else None) of
            None \<Rightarrow> (Missing_voiceSamplePath, [], stored)
          | Some body \<Rightarrow>
             if \<not> ob_profile_fetch_ok env then (Ob_failed_to_fetch_profile, [], stored)
             else case stored of
               None \<Rightarrow> (Ob_profile_not_found, [], stored)
             | Some profile \<Rightarrow>
                (case already_ready profile of
                   Some (v, a) \<Rightarrow> (Already_ready v a, [], stored)
                 | None \<Rightarrow>
                    (case run_pipeline env userId body
                            \<lparr>prof = profile, log = [], thrown = False\<rparr> of
                       (res, \<sigma>) \<Rightarrow>
                         (if thrown \<sigma> then Ob_threw else res, log \<sigma>, Some (prof \<sigma>))))))"

subsection \<open>The other writers of the profile row\<close>

text \<open>The enqueue handler (onboarding/enqueue/route.ts, POST), as far as the profile
  row goes: every early return leaves it as it is, and the last step sends the PATCH
  that sets \<open>voice_uploaded\<close>, whose response is dropped; \<open>eq_patch_ok\<close> is whether the
  store accepts it.\<close>

record enqueue_env =
  eq_userId :: "string option"
  eq_config_ok :: bool
  audioStoragePath :: "string option"
  eq_profile_fetch_ok :: bool
  existing_job :: bool
  timestamp_insert_ok :: bool
  job_insert_ok :: bool
  eq_patch_ok :: bool

definition enqueue_profile :: "enqueue_env \<Rightarrow> profile \<Rightarrow> profile" where
  "enqueue_profile env p =
     (if \<not> truthy_str (eq_userId env) \<or> \<not> eq_config_ok env
         \<or> \<not> truthy_str (audioStoragePath env) \<or> \<not> eq_profile_fetch_ok env
         \<or> \<not> truthy_str (phone_e164 p) then p
      else if setup_status p \<in> {Voice_uploaded, Voice_created, Agent_created, Ready}
              \<and> (existing_job env \<or> setup_status p = Ready) then p
      else if \<not> timestamp_insert_ok env \<or> \<not> job_insert_ok env then p
      else if \<not> eq_patch_ok env then p
      else p\<lparr>setup_status := Voice_uploaded\<rparr>)"

text \<open>The bootstrap handler (GET), for an existing profile: it syncs the phone number
  by a PATCH whose response is dropped; \<open>patch_ok\<close> is whether the store accepts it.\<close>

definition bootstrap_profile :: "string option \<Rightarrow> bool \<Rightarrow> profile \<Rightarrow> profile" where
  "bootstrap_profile phoneE164 patch_ok p =
     (if phone_e164 p \<noteq> phoneE164 \<and> patch_ok then p\<lparr>phone_e164 := phoneE164\<rparr> else p)"

text \<open>The operations that write a profile row, and the rows a sequence of them goes
  through, starting from \<open>p\<close>.\<close>

datatype profile_op =
    Process_onboarding onboarding_env
  | Enqueue enqueue_env
  | Bootstrap "string option" bool

definition states_of :: "event list \<Rightarrow> profile list" where
  "states_of es = concat (map (\<lambda>e. case e of Set_status p \<Rightarrow> [p] | _ \<Rightarrow> []) es)"

text \<open>The statuses that the PATCHes of a run ask for, accepted or not, in order.\<close>

definition status_requests :: "event list \<Rightarrow> SetupStatus list" where
  "status_requests es =
     concat (map (\<lambda>e. case e of Set_status p \<Rightarrow> [setup_status p]
                              | Status_refused st \<Rightarrow> [st]
                              | Status_rejected st \<Rightarrow> [st] | _ \<Rightarrow> []) es)"

text \<open>The rows an operation writes, in order, and the stored row after it.\<close>

fun op_states :: "profile_op \<Rightarrow> profile \<Rightarrow> profile list \<times> profile" where
  "op_states (Process_onboarding env) p =
     (case processOnboarding env (Some p) of
        (res, es, stored) \<Rightarrow> (states_of es, (case stored of Some q \<Rightarrow> q | None \<Rightarrow> p)))"
| "op_states (Enqueue env) p = ([enqueue_profile env p], enqueue_profile env p)"
| "op_states (Bootstrap phone patch_ok) p =
     ([bootstrap_profile phone patch_ok p], bootstrap_profile phone patch_ok p)"

fun visited :: "profile_op list \<Rightarrow> profile \<Rightarrow> profile list" where
  "visited [] p = [p]"
| "visited (x # xs) p = p # fst (op_states x p) @ visited xs (snd (op_states x p))"

definition valid_request :: "onboarding_env \<Rightarrow> bool" where
  "valid_request env =
     (truthy_str (ob_userId env) \<and> ob_profile_fetch_ok env
      \<and> (case ob_body env of None \<Rightarrow> False | Some b \<Rightarrow> truthy_str (voiceSamplePath b)))"

text \<open>An operation in which the store does not refuse the PATCH that carries the voice
  id (the one that sets \<open>agent_created\<close>) when it accepts the one that sets \<open>ready\<close>.\<close>

fun accepts_voice_before_ready :: "profile_op \<Rightarrow> bool" where
  "accepts_voice_before_ready (Process_onboarding env) =
     (status_patch env Ready = Answered_ok \<longrightarrow> status_patch env Agent_created \<noteq> Answered_not_ok)"
| "accepts_voice_before_ready (Enqueue env) = True"
| "accepts_voice_before_ready (Bootstrap phone patch_ok) = True"

text \<open>The invariant of the profile row.\<close>

definition ready_has_ids :: "profile \<Rightarrow> bool" where
  "ready_has_ids p =
     (setup_status p = Ready \<longrightarrow> eleven_voice_id p \<noteq> None \<and> eleven_agent_id p \<noteq> None)"

text \<open>The order of the onboarding statuses, and a sequence of written statuses that only
  moves forward or escapes to \<open>error\<close>, after which nothing is written.\<close>

fun setup_rank :: "SetupStatus \<Rightarrow> nat" where
  "setup_rank New = 0"
| "setup_rank Voice_uploaded = 1"
| "setup_rank Voice_created = 2"
| "setup_rank Agent_created = 3"
| "setup_rank Ready = 4"
| "setup_rank Error = 5"

fun forward_only :: "SetupStatus list \<Rightarrow> bool" where
  "forward_only [] = True"
| "forward_only [x] = True"
| "forward_only (x # y # ys) = (x \<noteq> Error \<and> setup_rank x < setup_rank y \<and> forward_only (y # ys))"

text \<open>How many non-terminal calls a user has.\<close>

definition active_count :: "user_id \<Rightarrow> call list \<Rightarrow> nat" where
  "active_count u cs = length (filter (\<lambda>c. clerk_user_id c = u \<and> active c) cs)"

subsection \<open>The order of the call and scheduled-call statuses\<close>

text \<open>The stages of a call and of a scheduled call; the terminal statuses share the
  last stage.\<close>

fun call_rank :: "call_status \<Rightarrow> nat" where
  "call_rank Queued = 0"
| "call_rank Dialing = 1"
| "call_rank In_progress = 2"
| "call_rank Completed = 3"
| "call_rank Failed = 3"

fun sched_rank :: "sched_status \<Rightarrow> nat" where
  "sched_rank Pending = 0"
| "sched_rank Executing = 1"
| "sched_rank Executed = 2"
| "sched_rank Sched_failed = 2"
| "sched_rank Canceled = 2"

text \<open>A later table keeps every row of an earlier one in its place, with the same id and
  a stage that is not lower; new call rows come after them.\<close>

definition calls_forward :: "call list \<Rightarrow> call list \<Rightarrow> bool" where
  "calls_forward cs cs' =
     (length cs \<le> length cs'
      \<and> (\<forall>k < length cs. call_id (cs' ! k) = call_id (cs ! k)
             \<and> call_rank (status (cs ! k)) \<le> call_rank (status (cs' ! k))))"

definition scheds_forward :: "scheduled_call list \<Rightarrow> scheduled_call list \<Rightarrow> bool" where
  "scheds_forward rows rows' =
     (length rows' = length rows
      \<and> (\<forall>k < length rows. sc_id (rows' ! k) = sc_id (rows ! k)
             \<and> sched_rank (sc_status (rows ! k)) \<le> sched_rank (sc_status (rows' ! k))))"

subsection \<open>Sequences of operations on the store\<close>

text \<open>The operations of the core that write calls and scheduled calls: starting a call,
  a sweep of the claimer, and a cancellation, each with the answers it gets and the
  instant it runs at.\<close>

datatype core_op =
    Start_call call_env instant
  | Run_due_calls cron_env instant
  | Cancel_scheduled "string option" "nat option" bool instant

fun apply_op :: "core_op \<Rightarrow> store \<Rightarrow> store" where
  "apply_op (Start_call env now) s = snd (startCall env now s)"
| "apply_op (Run_due_calls env nowIso) s = snd (runDueCalls env nowIso s)"
| "apply_op (Cancel_scheduled auth_uid id_param patch_ok now) s =
     s\<lparr>scheduled_calls :=
         snd (cancelScheduledCall auth_uid id_param patch_ok now (scheduled_calls s))\<rparr>"

fun run_ops :: "core_op list \<Rightarrow> store \<Rightarrow> store" where
  "run_ops [] s = s"
| "run_ops (x # xs) s = run_ops xs (apply_op x s)"

subsection \<open>The invariant of concurrent claim attempts\<close>

text \<open>What holds of the attempts and the table after any number of requests, for the
  row at index \<open>k\<close> of the first table \<open>rows0\<close>.\<close>

definition claim_inv ::
  "scheduled_call list \<Rightarrow> nat \<Rightarrow> attempt list \<Rightarrow> scheduled_call list \<Rightarrow> bool" where
  "claim_inv rows0 k atts rows =
     ((\<exists>h. claims_only h \<and> rows = map h rows0)
      \<and> claims (sc_id (rows0 ! k)) atts = (if sc_status (rows ! k) = Executing then 1 else 0)
      \<and> (\<forall>a \<in> set atts. after_row a (rows0 ! k) rows0 \<longrightarrow>
            on_course a (sc_id (rows0 ! k)) (sc_status (rows ! k) = Executing)))"

text \<open>How many requests of a schedule take the row at index \<open>k\<close> to executing.\<close>

fun transitions :: "nat \<Rightarrow> nat list \<Rightarrow> attempt list \<Rightarrow> scheduled_call list \<Rightarrow> nat" where
  "transitions k [] atts rows = 0"
| "transitions k (j # schedule) atts rows =
     (if j < length atts
      then (case attempt_step (atts ! j) rows of
              (a', rows') \<Rightarrow>
                (if sc_status (rows ! k) \<noteq> Executing \<and> sc_status (rows' ! k) = Executing
                 then 1 else 0)
                + transitions k schedule (atts[j := a']) rows')
      else transitions k schedule atts rows)"

subsection \<open>Example rows and provider answers\<close>

definition example_call ::
  "nat \<Rightarrow> user_id \<Rightarrow> call_status \<Rightarrow> string option \<Rightarrow> instant option \<Rightarrow> instant option \<Rightarrow> call" where
  "example_call i u st conv cr started =
     \<lparr>call_id = i, clerk_user_id = u, timestamp_id = 0, scheduled_call_id = None,
      origin = Manual, status = st, to_number_e164 = ''+15550100'',
      eleven_conversation_id = conv, twilio_call_sid = None, created_at = cr,
      started_at = started, ended_at = None, duration_seconds = None, failure_reason = None\<rparr>"

definition no_details :: el_details where
  "no_details = \<lparr>call_duration_secs = None, callDurationSecs = None,
     start_time_unix_secs = None, startTimeUnixSecs = None, end_time_unix_secs = None,
     endTimeUnixSecs = None, d_status = None, conversation_status = None\<rparr>"

definition el_not_found :: "string \<Rightarrow> el_response option" where
  "el_not_found cid = Some \<lparr>el_status = 404, el_json = Some no_details\<rparr>"

definition el_done :: "string \<Rightarrow> el_response option" where
  "el_done cid = Some \<lparr>el_status = 200, el_json = Some (no_details\<lparr>d_status := Some ''Done''\<rparr>)\<rparr>"

text \<open>The provider reports every conversation as done, except that the request for
  \<open>conv_a\<close> rejects.\<close>

definition el_done_a_rejects :: "string \<Rightarrow> el_response option" where
  "el_done_a_rejects cid = (if cid = ''conv_a'' then None else el_done cid)"

text \<open>The store accepts every PATCH; the store refuses the PATCH of row 33.\<close>

definition all_accepted :: "nat \<Rightarrow> answer" where
  "all_accepted i = Answered_ok"

definition refused_33 :: "nat \<Rightarrow> answer" where
  "refused_33 i = (if i = 33 then Answered_not_ok else Answered_ok)"

definition four_stale_calls :: "call list" where
  "four_stale_calls =
     [example_call 1 ''u'' Queued None (Some 1000) None,
      example_call 2 ''u'' Queued None (Some 2000) None,
      example_call 3 ''u'' Queued None (Some 3000) None,
      example_call 4 ''u'' Queued None (Some 4000) None]"

definition four_dialing_calls :: "call list" where
  "four_dialing_calls =
     [example_call 11 ''u'' Dialing (Some ''conv_a'') (Some 5000) (Some 5100),
      example_call 12 ''u'' Dialing (Some ''conv_b'') (Some 6000) (Some 6100),
      example_call 13 ''u'' Dialing (Some ''conv_c'') (Some 7000) (Some 7100),
      example_call 14 ''u'' Dialing (Some ''conv_d'') (Some 8000) (Some 8100)]"

definition four_undated_calls :: "call list" where
  "four_undated_calls =
     [example_call 21 ''u'' Queued None None None,
      example_call 22 ''u'' Queued None None None,
      example_call 23 ''u'' Queued None None None,
      example_call 24 ''u'' Queued None None None]"

definition three_calls :: "call list" where
  "three_calls =
     [example_call 31 ''u'' Dialing (Some ''conv_a'') (Some 5000) (Some 5100),
      example_call 32 ''u'' Queued None (Some 9000) None,
      example_call 33 ''u'' Queued (Some ''conv_c'') None None]"

definition el_in_progress :: "string \<Rightarrow> el_response option" where
  "el_in_progress cid =
     Some \<lparr>el_status = 200, el_json = Some (no_details\<lparr>d_status := Some ''in-progress''\<rparr>)\<rparr>"

definition ready_profile :: profile where
  "ready_profile = \<lparr>phone_e164 = Some ''+15550100'', setup_status = Ready,
     eleven_voice_id = Some ''voice_1'', eleven_agent_id = Some ''agent_1''\<rparr>"

definition example_store :: "call list \<Rightarrow> scheduled_call list \<Rightarrow> store" where
  "example_store cs scs =
     \<lparr>profiles = (\<lambda>u. if u = ''u'' then Some ready_profile else None),
      latest_timestamp = (\<lambda>u. if u = ''u'' then Some 7 else None),
      calls = cs, scheduled_calls = scs\<rparr>"

definition example_call_env :: call_env where
  "example_call_env =
     \<lparr>auth_user = Some ''u'', active_fetch = Answered_ok, el_query = el_in_progress,
      reconcile_patch = all_accepted,
      profile_fetch_ok = True, timestamp_fetch_ok = True, active_check_ok = True,
      call_insert = Inserted, dial = Dial_accepted (Some ''conv_x'') (Some ''sid_x'')\<rparr>"

definition example_sched :: "nat \<Rightarrow> user_id \<Rightarrow> instant \<Rightarrow> sched_status \<Rightarrow> scheduled_call" where
  "example_sched i u t st =
     \<lparr>sc_id = i, sc_clerk_user_id = u, sc_timestamp_id = 7, scheduled_for = t,
      sc_status = st, attempt_count = None, last_attempt_at = None, executed_at = None,
      sc_failure_reason = None, sc_updated_at = None\<rparr>"

definition example_cron_env :: cron_env where
  "example_cron_env =
     \<lparr>body_limit = None, MAX_CONCURRENT_CALLS = 20, count_ok = True,
      claiming = \<lparr>rpc_answer = Answered_not_ok, due_fetch_ok = True,
                  claim_answer = (\<lambda>i. Answered_ok)\<rparr>,
      jobs_env = (\<lambda>i. \<lparr>prof_fetch_ok = True, job_insert = Inserted,
                        job_dial = Job_dial_response 200 ''{}'' (Some ''conv_j'') (Some ''sid_j'')\<rparr>),
      traceId = ''trace''\<rparr>"

definition two_due_for_one_user :: store where
  "two_due_for_one_user =
     example_store [] [example_sched 1 ''u'' 500 Pending, example_sched 2 ''u'' 600 Pending]"

definition one_dialing_call :: store where
  "one_dialing_call =
     example_store [example_call 41 ''u'' Dialing (Some ''conv_a'') (Some 900) (Some 950)] []"

text \<open>Two rows that are due, and three attempts: two of the fallback, both with limit 1,
  and one of the remote procedure with limit 5. In the schedule the first two select
  before either sends its PATCH, then the third runs, then the first two go on.\<close>

definition racing_rows :: "scheduled_call list" where
  "racing_rows = [example_sched 1 ''u'' 500 Pending, example_sched 2 ''v'' 600 Pending]"

definition fallback_env :: claim_env where
  "fallback_env =
     \<lparr>rpc_answer = Answered_not_ok, due_fetch_ok = True, claim_answer = (\<lambda>i. Answered_ok)\<rparr>"

definition rpc_env :: claim_env where
  "rpc_env =
     \<lparr>rpc_answer = Answered_ok, due_fetch_ok = True, claim_answer = (\<lambda>i. Answered_ok)\<rparr>"

definition racing_attempts :: "attempt list" where
  "racing_attempts =
     [start_attempt fallback_env 1000 1, start_attempt fallback_env 1001 1,
      start_attempt rpc_env 1002 5]"

definition racing_schedule :: "nat list" where
  "racing_schedule = [0, 1, 1, 2, 0, 0, 1]"

definition example_body :: Body where
  "example_body = \<lparr>voiceSamplePath = Some ''u/sample.webm'', timestampId = Some ''ts_1'',
     agentName = None\<rparr>"

definition example_reflection :: ExtractedReflection where
  "example_reflection = \<lparr>goals = [''ship the app'', [], ''sleep more''], fears = [''burning out''],
     situation = ''final year'', currentWork = None, otherNotes = Some ''moving soon''\<rparr>"

text \<open>A run in which transcription answers 500 and everything else succeeds.\<close>

definition example_onboarding_env :: onboarding_env where
  "example_onboarding_env =
     \<lparr>ob_userId = Some ''user_2abcdefgh'', ob_body = Some example_body,
      ob_profile_fetch_ok = True,
      ob_tsMeta = Some (Some ''My past self'', Some ''2025-01-01''),
      signed_ok = True, audio_ok = True, stt = None, openai = Some example_reflection,
      timestamp_patch_rejects = False,
      voice_add = Voice_json (Some ''voice_9''),
      agent_create = Agent_json None (Some ''agent_9''),
      status_patch = (\<lambda>st. Answered_ok)\<rparr>"

text \<open>The same run, in which the store answers the PATCH that sets \<open>agent_created\<close> and
  carries the voice id with an error.\<close>

definition voice_patch_refused_env :: onboarding_env where
  "voice_patch_refused_env =
     example_onboarding_env
       \<lparr>status_patch := (\<lambda>st. if st = Agent_created then Answered_not_ok else Answered_ok)\<rparr>"

definition new_profile :: profile where
  "new_profile = \<lparr>phone_e164 = Some ''+15550100'', setup_status = New,
     eleven_voice_id = None, eleven_agent_id = None\<rparr>"

definition example_enqueue_env :: enqueue_env where
  "example_enqueue_env =
     \<lparr>eq_userId = Some ''user_2abcdefgh'', eq_config_ok = True,
      audioStoragePath = Some ''u/sample.webm'', eq_profile_fetch_ok = True,
      existing_job = False, timestamp_insert_ok = True, job_insert_ok = True,
      eq_patch_ok = True\<rparr>"

text \<open>Enqueue, a run whose agent creation fails, a run that succeeds, a phone sync, and
  a further run.\<close>

definition example_ops :: "profile_op list" where
  "example_ops =
     [Enqueue example_enqueue_env,
      Process_onboarding (example_onboarding_env\<lparr>agent_create := Agent_rejected ''quota''\<rparr>),
      Process_onboarding example_onboarding_env,
      Bootstrap (Some ''+15550111'') True,
      Process_onboarding example_onboarding_env]"

definition agent_created_profile :: profile where
  "agent_created_profile = \<lparr>phone_e164 = Some ''+15550100'', setup_status = Agent_created,
     eleven_voice_id = Some ''voice_old'', eleven_agent_id = None\<rparr>"

text \<open>A dialing call, two scheduled calls that are due at 1000 and one that is not; a
  sweep at 1000, the cancellation of the third, and a manual call thirteen minutes later.\<close>

definition three_scheduled :: store where
  "three_scheduled =
     example_store [example_call 41 ''u'' Dialing (Some ''conv_a'') (Some 900) (Some 950)]
       [example_sched 1 ''u'' 500 Pending, example_sched 2 ''u'' 600 Pending,
        example_sched 3 ''u'' 5000000 Pending]"

definition example_core_ops :: "core_op list" where
  "example_core_ops =
     [Run_due_calls example_cron_env 1000,
      Cancel_scheduled (Some ''u'') (Some 3) True 1500,
      Start_call example_call_env 781000]"

section \<open>Properties of the reconciliation pass\<close>

lemma call_id_apply_outcome [simp]: "call_id (apply_outcome now oc r) = call_id r"
  by (cases oc) simp_all

lemma call_id_row_patch [simp]: "call_id (row_patch now el patch c r) = call_id r"
  by (simp add: row_patch_def split: result.splits)

lemma reconcile_loop_step:
  "reconcile_loop now el patch (c # rows) cs =
     (if row_throws now el patch c then (cs, True)
      else reconcile_loop now el patch rows
             (map (\<lambda>r. if call_id r = call_id c then row_patch now el patch c r else r) cs))"
proof (cases "decide now el c")
  case Throws
  then show ?thesis by (simp add: row_throws_def)
next
  case (Returns oc)
  show ?thesis
  proof (cases "oc = Untouched")
    case True
    with Returns show ?thesis by (simp add: row_throws_def row_patch_def cong: if_cong)
  next
    case False
    with Returns show ?thesis
      by (cases "patch (call_id c)")
         (simp_all add: row_throws_def row_patch_def patch_call_def cong: if_cong)
  qed
qed

lemma reconcile_loop_map:
  "fst (reconcile_loop now el patch rows cs) =
     map (\<lambda>r. foldl (\<lambda>r' c. if call_id r' = call_id c then row_patch now el patch c r' else r') r
                 (reached now el patch rows)) cs"
proof (induction rows arbitrary: cs)
  case Nil
  then show ?case by (simp add: reached_def)
next
  case (Cons c rows)
  show ?case
  proof (cases "row_throws now el patch c")
    case True
    then show ?thesis by (simp add: reconcile_loop_step reached_def del: reconcile_loop.simps)
  next
    case False
    then have r: "reached now el patch (c # rows) = c # reached now el patch rows"
      by (simp add: reached_def)
    from False show ?thesis
      unfolding r by (simp add: reconcile_loop_step Cons.IH o_def del: reconcile_loop.simps)
  qed
qed

lemma reconcile_loop_threw:
  "snd (reconcile_loop now el patch rows cs) = (\<exists>c \<in> set rows. row_throws now el patch c)"
proof (induction rows arbitrary: cs)
  case Nil
  then show ?case by simp
next
  case (Cons c rows)
  then show ?case by (simp add: reconcile_loop_step del: reconcile_loop.simps)
qed

lemma fold_row_absent:
  "call_id r \<notin> call_id ` set rows \<Longrightarrow>
   foldl (\<lambda>r' c. if call_id r' = call_id c then f c r' else r') r rows = r"
  by (induction rows arbitrary: r) auto

lemma fold_row_present:
  assumes keep: "\<And>c r. call_id (f c r) = call_id r"
  shows "distinct (map call_id rows) \<Longrightarrow> c \<in> set rows \<Longrightarrow> call_id r = call_id c \<Longrightarrow>
   foldl (\<lambda>r' c. if call_id r' = call_id c then f c r' else r') r rows = f c r"
proof (induction rows arbitrary: r)
  case Nil
  then show ?case by simp
next
  case (Cons a rows)
  show ?case
  proof (cases "a = c")
    case True
    with Cons.prems have "call_id (f c r) \<notin> call_id ` set rows"
      by (auto simp: keep)
    with True Cons.prems show ?thesis
      by (simp add: fold_row_absent)
  next
    case False
    with Cons.prems have "c \<in> set rows" "call_id a \<noteq> call_id c" by auto
    with Cons show ?thesis by simp
  qed
qed

lemma fetch_active_subset: "set (fetch_active u cs) \<subseteq> {c \<in> set cs. clerk_user_id c = u \<and> active c}"
  by (auto simp: fetch_active_def dest: in_set_takeD)

lemma distinct_fetch_active:
  assumes "distinct (map call_id cs)"
  shows "distinct (map call_id (fetch_active u cs))"
proof -
  let ?xs = "filter (\<lambda>c. clerk_user_id c = u \<and> active c) cs"
  have "distinct (map call_id ?xs)"
    using assms by (rule distinct_map_filter)
  then have "distinct (map call_id (sort_key created_desc_key ?xs))"
    by (simp add: distinct_map)
  then have "distinct (take 3 (map call_id (sort_key created_desc_key ?xs)))"
    by (rule distinct_take)
  then show ?thesis
    by (simp add: fetch_active_def take_map)
qed

lemma reached_subset: "set (reached now el patch rows) \<subseteq> set rows"
  by (auto simp: reached_def dest: set_takeWhileD)

lemma distinct_reached:
  assumes "distinct (map call_id rows)"
  shows "distinct (map call_id (reached now el patch rows))"
proof -
  define n where "n = length (reached now el patch rows)"
  have "reached now el patch rows = take n rows"
    unfolding reached_def n_def by (rule takeWhile_eq_take)
  then have "map call_id (reached now el patch rows) = take n (map call_id rows)"
    by (simp only: take_map)
  moreover from assms have "distinct (take n (map call_id rows))" by (rule distinct_take)
  ultimately show ?thesis by simp
qed

lemma reached_decided:
  "c \<in> set (reached now el patch rows) \<Longrightarrow> \<exists>oc. decide now el c = Returns oc"
proof -
  assume "c \<in> set (reached now el patch rows)"
  then have "\<not> row_throws now el patch c"
    unfolding reached_def by (rule set_takeWhileD [THEN conjunct2])
  then show ?thesis by (cases "decide now el c") (simp_all add: row_throws_def)
qed

lemma reconcile_characterisation:
  assumes "distinct (map call_id cs)"
  shows "fst (reconcileStuckCalls u Answered_ok now el patch cs) =
         map (\<lambda>r. if r \<in> set (reached now el patch (fetch_active u cs))
                   then row_patch now el patch r r else r) cs"
proof -
  let ?rows = "reached now el patch (fetch_active u cs)"
  have d: "distinct (map call_id ?rows)"
    using assms by (intro distinct_reached distinct_fetch_active)
  have sub: "set ?rows \<subseteq> set cs" using reached_subset fetch_active_subset by fastforce
  have inj: "inj_on call_id (set cs)" using assms by (simp add: distinct_map)
  have "foldl (\<lambda>r' c. if call_id r' = call_id c then row_patch now el patch c r' else r') r ?rows
        = (if r \<in> set ?rows then row_patch now el patch r r else r)"
    if "r \<in> set cs" for r
  proof (cases "r \<in> set ?rows")
    case True
    have "foldl (\<lambda>r' c. if call_id r' = call_id c then row_patch now el patch c r' else r') r ?rows
          = row_patch now el patch r r"
      by (rule fold_row_present [OF _ d True refl]) simp
    with True show ?thesis by simp
  next
    case False
    have "call_id r \<notin> call_id ` set ?rows"
    proof
      assume "call_id r \<in> call_id ` set ?rows"
      then obtain c where c: "c \<in> set ?rows" "call_id c = call_id r" by auto
      with sub have "c \<in> set cs" by auto
      with inj that c have "c = r" by (auto dest: inj_onD)
      with c False show False by simp
    qed
    with False show ?thesis by (simp add: fold_row_absent)
  qed
  then show ?thesis
    by (simp add: reconcileStuckCalls_def reconcile_loop_map cong: map_cong)
qed

lemma lookup_call_map:
  assumes "distinct (map call_id cs)" and "c \<in> set cs"
    and "\<And>r. call_id (g r) = call_id r"
  shows "lookup_call (call_id c) (map g cs) = Some (g c)"
  using assms(1,2)
proof (induction cs)
  case Nil
  then show ?case by simp
next
  case (Cons a cs)
  then show ?case
    by (auto simp: lookup_call_def assms(3))
qed

lemma lookup_reached:
  assumes d: "distinct (map call_id cs)"
    and c: "c \<in> set (reached now el patch (fetch_active u cs))"
  shows "lookup_call (call_id c) (fst (reconcileStuckCalls u Answered_ok now el patch cs))
         = Some (row_patch now el patch c c)"
proof -
  have in_calls: "c \<in> set cs" using c reached_subset fetch_active_subset by fastforce
  let ?g = "\<lambda>r. if r \<in> set (reached now el patch (fetch_active u cs))
                  then row_patch now el patch r r else r"
  have "lookup_call (call_id c) (map ?g cs) = Some (?g c)"
    using d in_calls by (rule lookup_call_map) simp
  with c show ?thesis by (simp add: reconcile_characterisation [OF d])
qed

lemma length_fetch_active:
  "length (fetch_active u cs)
     = min 3 (length (filter (\<lambda>c. clerk_user_id c = u \<and> active c) cs))"
  by (simp add: fetch_active_def min.commute)

lemma fetch_active_all:
  assumes "length (filter (\<lambda>c. clerk_user_id c = u \<and> active c) cs) \<le> 3"
  shows "set (fetch_active u cs) = {c \<in> set cs. clerk_user_id c = u \<and> active c}"
  using assms by (simp add: fetch_active_def)

lemma not_after_key: "not_after c d \<longleftrightarrow> created_desc_key c \<le> created_desc_key d"
  by (simp add: not_after_def created_desc_key_def split: option.splits)

lemma fetch_active_sorted: "sorted_wrt not_after (fetch_active u cs)"
proof -
  let ?xs = "sort_key created_desc_key (filter (\<lambda>c. clerk_user_id c = u \<and> active c) cs)"
  have "sorted (map created_desc_key ?xs)" by (rule sorted_sort_key)
  then have "sorted_wrt not_after ?xs" by (simp add: sorted_map not_after_key [abs_def])
  then show ?thesis unfolding fetch_active_def by (rule sorted_wrt_take)
qed

lemma fetch_active_newest:
  assumes c: "c \<in> set (fetch_active u cs)"
    and d: "d \<in> set cs" "clerk_user_id d = u" "active d" "d \<notin> set (fetch_active u cs)"
  shows "not_after c d"
proof -
  let ?xs = "sort_key created_desc_key (filter (\<lambda>c. clerk_user_id c = u \<and> active c) cs)"
  have "sorted (map created_desc_key ?xs)" by (rule sorted_sort_key)
  then have "sorted_wrt not_after ?xs" by (simp add: sorted_map not_after_key [abs_def])
  then have s: "sorted_wrt not_after (take 3 ?xs @ drop 3 ?xs)" by simp
  have "d \<in> set ?xs" using d(1,2,3) by simp
  then have "d \<in> set (take 3 ?xs) \<union> set (drop 3 ?xs)"
    by (simp only: set_append [symmetric] append_take_drop_id)
  moreover from d(4) have "d \<notin> set (take 3 ?xs)" by (simp add: fetch_active_def)
  ultimately have dd: "d \<in> set (drop 3 ?xs)" by blast
  from c have cc: "c \<in> set (take 3 ?xs)" by (simp add: fetch_active_def)
  from s cc dd show ?thesis unfolding sorted_wrt_append by blast
qed

lemma stale_decided: "isStale now c \<Longrightarrow> decide now el c \<noteq> Returns Untouched"
  by (simp add: decide_def split: option.splits result.splits)

lemma apply_outcome_resolves: "oc \<noteq> Untouched \<Longrightarrow> \<not> active (apply_outcome now oc r)"
  by (cases oc) (simp_all add: active_def)

section \<open>The claims about reconciliation\<close>

text \<open>
  Claim C6, as the code has it. The pass fetches at most three of the user's non-terminal
  calls (the most recently created ones) and only when the store answers the query. It
  goes through them in that order and ends at the first iteration that throws (a
  provider request that rejects, a provider body that does not parse, an end date out of
  range, a PATCH request that rejects). Take a fetched call that the pass gets to, so
  that no row fetched before it throws, whose conversation id is null or empty and whose
  start time (or, without one, creation time) lies more than 12 minutes before now. No
  provider request is made for it, and when the store accepts its PATCH the stored row
  is failed with failure_reason \<open>stale_no_conversation_id\<close> and ended_at now, whatever
  the provider answers for the other rows and whether or not a later iteration throws.
\<close>

theorem stale_no_conversation_id_fails:
  assumes "distinct (map call_id cs)"
    and "c \<in> set (reached now el patch (fetch_active u cs))"
    and "\<not> truthy_str (eleven_conversation_id c)"
    and "startedAt c = Some t" and "now - t > STALE_MS"
    and "patch (call_id c) = Answered_ok"
  shows "lookup_call (call_id c) (fst (reconcileStuckCalls u Answered_ok now el patch cs))
         = Some (c\<lparr>status := Failed, ended_at := Some now,
                    failure_reason := Some ''stale_no_conversation_id''\<rparr>)"
proof -
  have stale: "isStale now c" using assms(4,5) by (simp add: isStale_def)
  have dec: "decide now el c = Returns (Fail ''stale_no_conversation_id'')"
    using assms(3) stale by (simp add: decide_def)
  have "row_patch now el patch c c = c\<lparr>status := Failed, ended_at := Some now,
                    failure_reason := Some ''stale_no_conversation_id''\<rparr>"
    using dec assms(6) by (simp add: row_patch_def)
  with lookup_reached [OF assms(1,2)] show ?thesis by simp
qed

theorem stale_no_conversation_id_fails_witness:
  "distinct (map call_id three_calls)
   \<and> example_call 32 ''u'' Queued None (Some 9000) None
       \<in> set (reached 1209000 el_done_a_rejects all_accepted (fetch_active ''u'' three_calls))
   \<and> \<not> truthy_str (eleven_conversation_id (example_call 32 ''u'' Queued None (Some 9000) None))
   \<and> startedAt (example_call 32 ''u'' Queued None (Some 9000) None) = Some 9000
   \<and> 1209000 - 9000 > STALE_MS
   \<and> map status (fst (reconcileStuckCalls ''u'' Answered_ok 1209000 el_done_a_rejects
                         all_accepted three_calls))
       = [Dialing, Failed, Completed]
   \<and> snd (reconcileStuckCalls ''u'' Answered_ok 1209000 el_done_a_rejects all_accepted three_calls)
   \<and> lookup_call 32 (fst (reconcileStuckCalls ''u'' Answered_ok 1209000 el_done_a_rejects
                            all_accepted three_calls))
       = Some ((example_call 32 ''u'' Queued None (Some 9000) None)
                \<lparr>status := Failed, ended_at := Some 1209000,
                 failure_reason := Some ''stale_no_conversation_id''\<rparr>)"
proof -
  let ?c = "example_call 32 ''u'' Queued None (Some 9000) None"
  let ?r = "reconcileStuckCalls ''u'' Answered_ok 1209000 el_done_a_rejects all_accepted three_calls"
  have h1: "distinct (map call_id three_calls)" by code_simp
  have h2: "?c \<in> set (reached 1209000 el_done_a_rejects all_accepted (fetch_active ''u'' three_calls))"
    by code_simp
  have h3: "\<not> truthy_str (eleven_conversation_id ?c)" by code_simp
  have h4: "startedAt ?c = Some 9000" by code_simp
  have h5: "1209000 - 9000 > STALE_MS" by code_simp
  have h6: "all_accepted (call_id ?c) = Answered_ok" by code_simp
  have h7: "map status (fst ?r) = [Dialing, Failed, Completed]" by code_simp
  have h8: "snd ?r" by code_simp
  have h9: "call_id ?c = 32" by code_simp
  note T = stale_no_conversation_id_fails [OF h1 h2 h3 h4 h5 h6]
  from T have t: "lookup_call 32 (fst ?r)
       = Some (?c\<lparr>status := Failed, ended_at := Some 1209000,
                 failure_reason := Some ''stale_no_conversation_id''\<rparr>)"
    unfolding h9 .
  from h1 h2 h3 h4 h5 h7 h8 t show ?thesis by (intro conjI)
qed

text \<open>
  Claim C6 as stated fails on a user with four stale calls without a conversation id: the
  query has \<open>limit=3\<close>, so the oldest one is not fetched and stays queued.
\<close>

theorem stale_call_beyond_limit_counterexample:
  "active (example_call 1 ''u'' Queued None (Some 1000) None)
   \<and> eleven_conversation_id (example_call 1 ''u'' Queued None (Some 1000) None) = None
   \<and> startedAt (example_call 1 ''u'' Queued None (Some 1000) None) = Some 1000
   \<and> 1204000 - 1000 > STALE_MS
   \<and> lookup_call 1 (fst (reconcileStuckCalls ''u'' Answered_ok 1204000 el_not_found all_accepted
                           four_stale_calls))
       = Some (example_call 1 ''u'' Queued None (Some 1000) None)"
  by code_simp

text \<open>
  Claim C9, as the code has it. When the store answers the query, one pass looks at the
  fetched rows only: at most three of the user's non-terminal calls, the ones that come
  first in the descending order of creation time (all of them when the user has at most
  three), in that order. It decides an outcome for each fetched row up to the first
  iteration that throws, and the pass throws exactly when one does. The decision of a
  row takes effect when the store accepts its PATCH. Every other row, and every fetched
  row from the first throw on, is left as it is.
\<close>

theorem reconcile_decides_fetched_rows:
  assumes "distinct (map call_id cs)"
  shows "fst (reconcileStuckCalls u Answered_ok now el patch cs)
           = map (\<lambda>r. if r \<in> set (reached now el patch (fetch_active u cs))
                       then row_patch now el patch r r else r) cs
       \<and> snd (reconcileStuckCalls u Answered_ok now el patch cs)
           = (\<exists>r \<in> set (fetch_active u cs). row_throws now el patch r)
       \<and> (\<forall>r \<in> set (reached now el patch (fetch_active u cs)). \<exists>oc. decide now el r = Returns oc)
       \<and> set (fetch_active u cs) \<subseteq> {c \<in> set cs. clerk_user_id c = u \<and> active c}
       \<and> length (fetch_active u cs)
           = min 3 (length (filter (\<lambda>c. clerk_user_id c = u \<and> active c) cs))
       \<and> (length (filter (\<lambda>c. clerk_user_id c = u \<and> active c) cs) \<le> 3 \<longrightarrow>
            set (fetch_active u cs) = {c \<in> set cs. clerk_user_id c = u \<and> active c})
       \<and> sorted_wrt not_after (fetch_active u cs)
       \<and> (\<forall>c \<in> set (fetch_active u cs). \<forall>d \<in> set cs.
             clerk_user_id d = u \<and> active d \<and> d \<notin> set (fetch_active u cs) \<longrightarrow> not_after c d)"
proof (intro conjI ballI impI)
  show "fst (reconcileStuckCalls u Answered_ok now el patch cs)
           = map (\<lambda>r. if r \<in> set (reached now el patch (fetch_active u cs))
                       then row_patch now el patch r r else r) cs"
    using assms by (rule reconcile_characterisation)
  show "snd (reconcileStuckCalls u Answered_ok now el patch cs)
           = (\<exists>r \<in> set (fetch_active u cs). row_throws now el patch r)"
    by (simp add: reconcileStuckCalls_def reconcile_loop_threw)
  show "\<exists>oc. decide now el r = Returns oc"
    if "r \<in> set (reached now el patch (fetch_active u cs))" for r
    using that by (rule reached_decided)
  show "set (fetch_active u cs) \<subseteq> {c \<in> set cs. clerk_user_id c = u \<and> active c}"
    by (rule fetch_active_subset)
  show "length (fetch_active u cs)
           = min 3 (length (filter (\<lambda>c. clerk_user_id c = u \<and> active c) cs))"
    by (rule length_fetch_active)
  show "set (fetch_active u cs) = {c \<in> set cs. clerk_user_id c = u \<and> active c}"
    if "length (filter (\<lambda>c. clerk_user_id c = u \<and> active c) cs) \<le> 3"
    using that by (rule fetch_active_all)
  show "sorted_wrt not_after (fetch_active u cs)" by (rule fetch_active_sorted)
  show "not_after c d"
    if "c \<in> set (fetch_active u cs)" "d \<in> set cs"
      "clerk_user_id d = u \<and> active d \<and> d \<notin> set (fetch_active u cs)" for c d
  proof -
    from that(3) have "clerk_user_id d = u" "active d" "d \<notin> set (fetch_active u cs)"
      by simp_all
    with that(1,2) show ?thesis by (rule fetch_active_newest)
  qed
qed

theorem reconcile_decides_fetched_rows_witness:
  "distinct (map call_id three_calls)
   \<and> length (filter (\<lambda>c. clerk_user_id c = ''u'' \<and> active c) three_calls) \<le> 3
   \<and> set (fetch_active ''u'' three_calls)
       = {c \<in> set three_calls. clerk_user_id c = ''u'' \<and> active c}
   \<and> map call_id (fetch_active ''u'' three_calls) = [33, 32, 31]
   \<and> map call_id (reached 1209000 el_done_a_rejects refused_33 (fetch_active ''u'' three_calls))
       = [33, 32]
   \<and> snd (reconcileStuckCalls ''u'' Answered_ok 1209000 el_done_a_rejects refused_33 three_calls)
   \<and> fst (reconcileStuckCalls ''u'' Answered_ok 1209000 el_done_a_rejects refused_33 three_calls)
       = map (\<lambda>r. if r \<in> set (reached 1209000 el_done_a_rejects refused_33
                                  (fetch_active ''u'' three_calls))
                   then row_patch 1209000 el_done_a_rejects refused_33 r r else r) three_calls
   \<and> map status (fst (reconcileStuckCalls ''u'' Answered_ok 1209000 el_done_a_rejects refused_33
                         three_calls))
       = [Dialing, Failed, Queued]"
proof -
  let ?r = "reconcileStuckCalls ''u'' Answered_ok 1209000 el_done_a_rejects refused_33 three_calls"
  have h1: "distinct (map call_id three_calls)" by code_simp
  have h2: "length (filter (\<lambda>c. clerk_user_id c = ''u'' \<and> active c) three_calls) \<le> 3"
    by code_simp
  have h3: "map call_id (fetch_active ''u'' three_calls) = [33, 32, 31]" by code_simp
  have h4: "map call_id (reached 1209000 el_done_a_rejects refused_33 (fetch_active ''u'' three_calls))
       = [33, 32]" by code_simp
  have h5: "snd ?r" by code_simp
  have h6: "map status (fst ?r) = [Dialing, Failed, Queued]" by code_simp
  note T = reconcile_decides_fetched_rows [OF h1, of "''u''" 1209000 el_done_a_rejects refused_33]
  from T have a: "fst ?r = map (\<lambda>r. if r \<in> set (reached 1209000 el_done_a_rejects refused_33
                                  (fetch_active ''u'' three_calls))
                   then row_patch 1209000 el_done_a_rejects refused_33 r r else r) three_calls"
    by (rule conjunct1)
  from T have "length (filter (\<lambda>c. clerk_user_id c = ''u'' \<and> active c) three_calls) \<le> 3 \<longrightarrow>
            set (fetch_active ''u'' three_calls)
              = {c \<in> set three_calls. clerk_user_id c = ''u'' \<and> active c}"
    by (elim conjE)
  from this h2 have b: "set (fetch_active ''u'' three_calls)
              = {c \<in> set three_calls. clerk_user_id c = ''u'' \<and> active c}"
    by (rule mp)
  from h1 h2 b h3 h4 h5 a h6 show ?thesis by (intro conjI)
qed

text \<open>
  Claim C9 as stated fails on a user with four dialing calls that the provider reports as
  done: the policy completes each of them, but the pass never looks at the oldest.
\<close>

theorem reconcile_skips_fourth_call_counterexample:
  "decide 1204000 el_done (example_call 11 ''u'' Dialing (Some ''conv_a'') (Some 5000) (Some 5100))
     = Returns (Complete (Some 1204000) (Some 1198))
   \<and> lookup_call 11 (fst (reconcileStuckCalls ''u'' Answered_ok 1204000 el_done all_accepted
                            four_dialing_calls))
       = Some (example_call 11 ''u'' Dialing (Some ''conv_a'') (Some 5000) (Some 5100))
   \<and> map status (fst (reconcileStuckCalls ''u'' Answered_ok 1204000 el_done all_accepted
                         four_dialing_calls))
       = [Dialing, Completed, Completed, Completed]"
  by code_simp

text \<open>
  Claim C10, as the code has it. A call with neither started_at nor created_at is stale
  at every instant. When the pass fetches it (it is among the at most three rows of the
  query, and the store answers) and gets to the end of its iteration (no row fetched
  before it throws, and neither does its own provider request, answer or PATCH request),
  and the store accepts its PATCH, the stored row leaves the non-terminal statuses in
  that pass: it is failed or completed.
\<close>

theorem undated_call_is_stale_and_resolved:
  assumes "started_at c = None" and "created_at c = None"
  shows "isStale now c
       \<and> (distinct (map call_id cs) \<and> c \<in> set (reached now el patch (fetch_active u cs))
            \<and> patch (call_id c) = Answered_ok \<longrightarrow>
          (\<exists>r. lookup_call (call_id c) (fst (reconcileStuckCalls u Answered_ok now el patch cs))
                  = Some r
              \<and> \<not> active r))"
proof (intro conjI impI)
  show stale: "isStale now c" using assms by (simp add: isStale_def startedAt_def)
  assume h: "distinct (map call_id cs) \<and> c \<in> set (reached now el patch (fetch_active u cs))
            \<and> patch (call_id c) = Answered_ok"
  then have d: "distinct (map call_id cs)"
    and r: "c \<in> set (reached now el patch (fetch_active u cs))"
    and p: "patch (call_id c) = Answered_ok" by simp_all
  from reached_decided [OF r] obtain oc where oc: "decide now el c = Returns oc" ..
  with stale_decided [OF stale, of el] have "oc \<noteq> Untouched" by simp
  then have "\<not> active (apply_outcome now oc c)" by (rule apply_outcome_resolves)
  with oc p have "\<not> active (row_patch now el patch c c)" by (simp add: row_patch_def)
  with lookup_reached [OF d r]
  show "\<exists>r. lookup_call (call_id c) (fst (reconcileStuckCalls u Answered_ok now el patch cs))
               = Some r \<and> \<not> active r"
    by simp
qed

theorem undated_call_is_stale_and_resolved_witness:
  "distinct (map call_id three_calls)
   \<and> example_call 33 ''u'' Queued (Some ''conv_c'') None None
       \<in> set (reached 0 el_not_found all_accepted (fetch_active ''u'' three_calls))
   \<and> isStale 0 (example_call 33 ''u'' Queued (Some ''conv_c'') None None)
   \<and> (\<exists>r. lookup_call 33 (fst (reconcileStuckCalls ''u'' Answered_ok 0 el_not_found all_accepted
                                  three_calls)) = Some r
          \<and> \<not> active r)"
proof -
  let ?c = "example_call 33 ''u'' Queued (Some ''conv_c'') None None"
  have h1: "distinct (map call_id three_calls)" by code_simp
  have h2: "?c \<in> set (reached 0 el_not_found all_accepted (fetch_active ''u'' three_calls))"
    by code_simp
  have h3: "started_at ?c = None" by code_simp
  have h4: "created_at ?c = None" by code_simp
  have h5: "call_id ?c = 33" by code_simp
  have h6: "all_accepted (call_id ?c) = Answered_ok" by code_simp
  note T = undated_call_is_stale_and_resolved [OF h3 h4, of 0 three_calls el_not_found all_accepted "''u''"]
  from T have a: "isStale 0 ?c" by (rule conjunct1)
  from T have "distinct (map call_id three_calls)
       \<and> ?c \<in> set (reached 0 el_not_found all_accepted (fetch_active ''u'' three_calls))
       \<and> all_accepted (call_id ?c) = Answered_ok \<longrightarrow>
          (\<exists>r. lookup_call (call_id ?c) (fst (reconcileStuckCalls ''u'' Answered_ok 0 el_not_found
                  all_accepted three_calls)) = Some r \<and> \<not> active r)"
    by (rule conjunct2)
  moreover from h1 h2 h6 have "distinct (map call_id three_calls)
       \<and> ?c \<in> set (reached 0 el_not_found all_accepted (fetch_active ''u'' three_calls))
       \<and> all_accepted (call_id ?c) = Answered_ok" by (intro conjI)
  ultimately have b: "\<exists>r. lookup_call (call_id ?c) (fst (reconcileStuckCalls ''u'' Answered_ok 0
                  el_not_found all_accepted three_calls)) = Some r \<and> \<not> active r"
    by (rule mp)
  from h1 h2 a b show ?thesis unfolding h5 by (intro conjI)
qed

text \<open>
  Claim C10 as stated fails on a user with four calls without any timestamp: three are
  fetched and failed, one stays queued after the pass.
\<close>

theorem undated_call_beyond_limit_counterexample:
  "started_at (example_call 24 ''u'' Queued None None None) = None
   \<and> created_at (example_call 24 ''u'' Queued None None None) = None
   \<and> length (filter active (fst (reconcileStuckCalls ''u'' Answered_ok 1204000 el_not_found
                                   all_accepted four_undated_calls))) = 1
   \<and> lookup_call 24 (fst (reconcileStuckCalls ''u'' Answered_ok 1204000 el_not_found all_accepted
                            four_undated_calls))
       = Some (example_call 24 ''u'' Queued None None None)"
  by code_simp

section \<open>Properties of the call dispatcher\<close>

lemma filter_map_shrinks:
  assumes "\<And>r. P (g r) \<Longrightarrow> P r"
  shows "length (filter P (map g xs)) \<le> length (filter P xs)"
  by (induction xs) (auto dest: assms)

lemma apply_outcome_user [simp]: "clerk_user_id (apply_outcome now oc r) = clerk_user_id r"
  by (cases oc) simp_all

lemma apply_outcome_active: "active (apply_outcome now oc r) \<Longrightarrow> active r"
  by (cases oc) (simp_all add: active_def)

lemma row_patch_user [simp]: "clerk_user_id (row_patch now el patch c r) = clerk_user_id r"
  by (simp add: row_patch_def split: result.splits)

lemma row_patch_active: "active (row_patch now el patch c r) \<Longrightarrow> active r"
  by (auto simp: row_patch_def split: result.splits if_splits dest: apply_outcome_active)

lemma fold_row_inactive:
  "clerk_user_id (foldl (\<lambda>r' c. if call_id r' = call_id c
        then row_patch now el patch c r' else r') r rows) = clerk_user_id r
   \<and> (active (foldl (\<lambda>r' c. if call_id r' = call_id c
        then row_patch now el patch c r' else r') r rows) \<longrightarrow> active r)"
  by (induction rows arbitrary: r) (auto dest: row_patch_active)

lemma reconcile_loop_active_count:
  "active_count v (fst (reconcile_loop now el patch rows cs)) \<le> active_count v cs"
proof -
  have "length (filter (\<lambda>c. clerk_user_id c = v \<and> active c)
          (map (\<lambda>r. foldl (\<lambda>r' c. if call_id r' = call_id c
                 then row_patch now el patch c r' else r') r (reached now el patch rows)) cs))
        \<le> length (filter (\<lambda>c. clerk_user_id c = v \<and> active c) cs)"
  proof (rule filter_map_shrinks)
    fix r
    assume "clerk_user_id (foldl (\<lambda>r' c. if call_id r' = call_id c
                 then row_patch now el patch c r' else r') r (reached now el patch rows)) = v
          \<and> active (foldl (\<lambda>r' c. if call_id r' = call_id c
                 then row_patch now el patch c r' else r') r (reached now el patch rows))"
    then show "clerk_user_id r = v \<and> active r"
      using fold_row_inactive [of now el patch r "reached now el patch rows"] by simp
  qed
  then show ?thesis by (simp add: reconcile_loop_map active_count_def)
qed

lemma reconcile_active_count:
  "active_count v (fst (reconcileStuckCalls u fetch now el patch cs)) \<le> active_count v cs"
  by (cases fetch) (simp_all add: reconcileStuckCalls_def reconcile_loop_active_count)

lemma fresh_call_id_gt: "r \<in> set cs \<Longrightarrow> call_id r < fresh_call_id cs"
  by (induction cs) (auto simp: fresh_call_id_def)

lemma patch_fresh:
  "patch_call (fresh_call_id cs) f (cs @ [r]) =
     cs @ [if call_id r = fresh_call_id cs then f r else r]"
proof -
  have "map (\<lambda>x. if call_id x = fresh_call_id cs then f x else x) cs = cs"
    by (rule map_idI) (use fresh_call_id_gt in fastforce)
  then show ?thesis by (simp add: patch_call_def)
qed

lemma active_count_append [simp]:
  "active_count v (cs @ [r]) = active_count v cs + (if clerk_user_id r = v \<and> active r then 1 else 0)"
  by (simp add: active_count_def)

lemma dial_and_record_count:
  assumes "dial_and_record d now (fresh_call_id cs) num
             (cs @ [queued_row (fresh_call_id cs) u ts sch orig num now]) = (res, cs')"
  shows "active_count v cs' \<le> active_count v cs + (if v = u then 1 else 0)"
  using assms
  by (cases d) (auto simp: dial_and_record_def patch_fresh queued_row_def Let_def)

lemma insert_and_dial_count:
  assumes "insert_and_dial env now u num ts cs = (res, cs')"
  shows "active_count v cs' \<le> active_count v cs + (if v = u then 1 else 0)"
proof (cases "call_insert env")
  case (Insert_rejected t)
  with assms show ?thesis by (simp add: insert_and_dial_def)
next
  case Inserted
  with assms have "dial_and_record (dial env) now (fresh_call_id cs) num
           (cs @ [queued_row (fresh_call_id cs) u ts None Manual num now]) = (res, cs')"
    by (simp add: insert_and_dial_def Let_def)
  then show ?thesis by (rule dial_and_record_count)
next
  case Inserted_without_id
  with assms have "cs' = cs @ [queued_row (fresh_call_id cs) u ts None Manual num now]"
    by (auto simp: insert_and_dial_def Let_def)
  then show ?thesis by (simp add: queued_row_def)
qed

lemma active_check_passes:
  "active_check env u cs = None \<Longrightarrow> active_count u cs = 0"
  by (simp add: active_check_def active_count_def split: if_splits list.splits)

lemma check_insert_dial_count:
  assumes "check_insert_dial env now u num ts cs = (res, cs')"
  shows "cs' = cs \<or> (active_count u cs = 0 \<and> (\<forall>v. active_count v cs' \<le> active_count v cs + (if v = u then 1 else 0)))"
proof (cases "active_check env u cs")
  case (Some e)
  with assms show ?thesis by (simp add: check_insert_dial_def)
next
  case None
  then have zero: "active_count u cs = 0" by (rule active_check_passes)
  from None assms have "insert_and_dial env now u num ts cs = (res, cs')"
    by (simp add: check_insert_dial_def)
  then have "\<forall>v. active_count v cs' \<le> active_count v cs + (if v = u then 1 else 0)"
    using insert_and_dial_count by blast
  with zero show ?thesis by blast
qed

lemma check_insert_dial_single:
  assumes "check_insert_dial env now u num ts cs = (res, cs')" and "active_count v cs \<le> 1"
  shows "active_count v cs' \<le> 1"
proof -
  from check_insert_dial_count [OF assms(1)] show ?thesis
  proof
    assume "cs' = cs" with assms(2) show ?thesis by simp
  next
    assume a: "active_count u cs = 0 \<and> (\<forall>v. active_count v cs' \<le> active_count v cs + (if v = u then 1 else 0))"
    then have "active_count v cs' \<le> active_count v cs + (if v = u then 1 else 0)" by blast
    with a assms(2) show ?thesis by (cases "v = u") auto
  qed
qed

text \<open>The handler without interruption, written out.\<close>

lemma startCall_sequential:
  "startCall env now s =
     (case (if truthy_str (auth_user env) then auth_user env else None) of
        None \<Rightarrow> (Unauthorized, s)
      | Some userId \<Rightarrow>
         (case reconcileStuckCalls userId (active_fetch env) now (el_query env)
                 (reconcile_patch env) (calls s) of
            (cs, threw) \<Rightarrow>
              if threw then (Handler_threw, s\<lparr>calls := cs\<rparr>)
              else case load_profile_and_timestamp env s userId of
                     Inl e \<Rightarrow> (e, s\<lparr>calls := cs\<rparr>)
                   | Inr (toNumber, tsId) \<Rightarrow>
                      (case check_insert_dial env now userId toNumber tsId cs of
                         (res, cs') \<Rightarrow> (res, s\<lparr>calls := cs'\<rparr>))))"
  by (simp add: startCall_def startCall_checks_def startCall_insert_def check_insert_dial_def
           split: option.splits prod.splits sum.splits)

lemma startCall_calls:
  assumes "startCall env now s = (res, s')"
  shows "calls s' = calls s
       \<or> (\<exists>u. auth_user env = Some u \<and> u \<noteq> [] \<and>
            (calls s' = fst (reconcileStuckCalls u (active_fetch env) now (el_query env)
                               (reconcile_patch env) (calls s))
             \<or> (\<exists>num ts. check_insert_dial env now u num ts
                   (fst (reconcileStuckCalls u (active_fetch env) now (el_query env)
                           (reconcile_patch env) (calls s)))
                  = (res, calls s'))))"
proof (cases "truthy_str (auth_user env)")
  case False
  with assms show ?thesis by (simp add: startCall_sequential)
next
  case True
  then obtain u where u: "auth_user env = Some u" "u \<noteq> []"
    by (auto simp: truthy_str_def split: option.splits)
  obtain cs threw where R: "reconcileStuckCalls u (active_fetch env) now (el_query env)
                               (reconcile_patch env) (calls s) = (cs, threw)"
    by (cases "reconcileStuckCalls u (active_fetch env) now (el_query env)
                               (reconcile_patch env) (calls s)")
  show ?thesis
  proof (cases threw)
    case True
    with assms \<open>truthy_str (auth_user env)\<close> u R have "calls s' = cs"
      by (auto simp: startCall_sequential)
    with u R show ?thesis by simp
  next
    case nothrow: False
    show ?thesis
    proof (cases "load_profile_and_timestamp env s u")
      case (Inl e)
      with assms True u R nothrow have "calls s' = cs" by (auto simp: startCall_sequential)
      with u R show ?thesis by simp
    next
      case (Inr p)
      obtain num ts where p: "p = (num, ts)" by (cases p)
      obtain r cs' where c: "check_insert_dial env now u num ts cs = (r, cs')"
        by (cases "check_insert_dial env now u num ts cs")
      with assms True u Inr p R nothrow have "res = r" "calls s' = cs'"
        by (auto simp: startCall_sequential)
      with c u R show ?thesis by auto
    qed
  qed
qed

lemma load_never_started:
  "load_profile_and_timestamp env s u = Inl e \<Longrightarrow> e \<noteq> Call_started i c sid n"
  by (auto simp: load_profile_and_timestamp_def split: if_splits option.splits)

lemma check_insert_dial_conflict:
  assumes "0 < active_count u cs"
  shows "\<exists>a. a \<in> set cs \<and> clerk_user_id a = u \<and> active a \<and>
           check_insert_dial env now u num ts cs =
             (if \<not> active_check_ok env then Failed_to_check_active_calls
              else ActiveCallExists a, cs)"
proof -
  from assms obtain a rest where f: "filter (\<lambda>c. clerk_user_id c = u \<and> active c) cs = a # rest"
    by (cases "filter (\<lambda>c. clerk_user_id c = u \<and> active c) cs") (auto simp: active_count_def)
  then have "a \<in> set (filter (\<lambda>c. clerk_user_id c = u \<and> active c) cs)" by simp
  then have "a \<in> set cs \<and> clerk_user_id a = u \<and> active a" by simp
  with f show ?thesis by (auto simp: check_insert_dial_def active_check_def)
qed

section \<open>The claims about dispatching and cancelling\<close>

text \<open>
  Claim C2, as the code has it. The check for an active call and the insert of the new
  row are two requests to the store, so the invariant is kept by a request that no other
  request of the same user interleaves with between the two, and the theorem is about
  the handler run without interruption. For every user with at most one call in queued,
  dialing or in_progress before startCall, there is at most one after it. When the
  authenticated user still has such a call after the reconciliation pass, startCall
  inserts no row and starts no call; when moreover the pass did not throw, the profile
  and timestamp checks pass and the store answers the active-call query, the answer is
  the conflict (HTTP 409) naming one of the user's active calls. The scheduled-call
  claimer makes no per-user check (it only compares the global count of active calls
  with a ceiling), so the theorem is about startCall alone.
\<close>

theorem startCall_keeps_single_active_call:
  assumes "startCall env now s = (res, s')"
  shows "(\<forall>v. active_count v (calls s) \<le> 1 \<longrightarrow> active_count v (calls s') \<le> 1)
       \<and> (\<forall>u. auth_user env = Some u \<and> u \<noteq> [] \<and>
               0 < active_count u
                     (fst (reconcileStuckCalls u (active_fetch env) now (el_query env)
                             (reconcile_patch env) (calls s)))
            \<longrightarrow> calls s' = fst (reconcileStuckCalls u (active_fetch env) now (el_query env)
                                  (reconcile_patch env) (calls s))
              \<and> (\<forall>i c sid n. res \<noteq> Call_started i c sid n)
              \<and> (\<not> snd (reconcileStuckCalls u (active_fetch env) now (el_query env)
                           (reconcile_patch env) (calls s))
                 \<and> (\<exists>num ts. load_profile_and_timestamp env s u = Inr (num, ts))
                 \<and> active_check_ok env
                   \<longrightarrow> http_status res = 409
                     \<and> (\<exists>a. res = ActiveCallExists a \<and> clerk_user_id a = u \<and> active a
                            \<and> a \<in> set (calls s'))))"
proof (intro conjI allI impI)
  fix v
  assume one: "active_count v (calls s) \<le> 1"
  from startCall_calls [OF assms] show "active_count v (calls s') \<le> 1"
  proof (elim disjE exE conjE)
    assume "calls s' = calls s" with one show ?thesis by simp
  next
    fix u
    assume "calls s' = fst (reconcileStuckCalls u (active_fetch env) now (el_query env)
                              (reconcile_patch env) (calls s))"
    with one reconcile_active_count [of v u "active_fetch env" now "el_query env"
                                       "reconcile_patch env" "calls s"]
    show ?thesis by simp
  next
    fix u num ts
    assume c: "check_insert_dial env now u num ts
        (fst (reconcileStuckCalls u (active_fetch env) now (el_query env)
                (reconcile_patch env) (calls s))) = (res, calls s')"
    have "active_count v (fst (reconcileStuckCalls u (active_fetch env) now (el_query env)
                                 (reconcile_patch env) (calls s))) \<le> 1"
      using one reconcile_active_count [of v u "active_fetch env" now "el_query env"
                                          "reconcile_patch env" "calls s"]
      by simp
    with c show ?thesis by (rule check_insert_dial_single)
  qed
next
  fix u
  let ?R = "reconcileStuckCalls u (active_fetch env) now (el_query env)
              (reconcile_patch env) (calls s)"
  let ?cs = "fst ?R"
  assume a: "auth_user env = Some u \<and> u \<noteq> [] \<and> 0 < active_count u ?cs"
  then have t: "truthy_str (auth_user env)" by (simp add: truthy_str_def)
  from a have pos: "0 < active_count u ?cs" by simp
  have R: "?R = (?cs, snd ?R)" by simp
  have both: "calls s' = ?cs \<and> (\<forall>i c sid n. res \<noteq> Call_started i c sid n)
       \<and> (\<not> snd ?R \<and> (\<exists>num ts. load_profile_and_timestamp env s u = Inr (num, ts))
          \<and> active_check_ok env
                   \<longrightarrow> http_status res = 409
                     \<and> (\<exists>a. res = ActiveCallExists a \<and> clerk_user_id a = u \<and> active a
                            \<and> a \<in> set (calls s')))"
  proof (cases "snd ?R")
    case True
    with assms a t R have "res = Handler_threw" "calls s' = ?cs"
      by (auto simp: startCall_sequential split: prod.splits)
    with True show ?thesis by simp
  next
    case nothrow: False
    show ?thesis
    proof (cases "load_profile_and_timestamp env s u")
      case (Inl e)
      with assms a t nothrow have "res = e" "calls s' = ?cs"
        by (auto simp: startCall_sequential split: prod.splits)
      with Inl load_never_started show ?thesis by fastforce
    next
      case (Inr p)
      obtain num ts where p: "p = (num, ts)" by (cases p)
      from check_insert_dial_conflict [OF pos, of env now num ts]
      obtain b where b: "b \<in> set ?cs" "clerk_user_id b = u" "active b"
        "check_insert_dial env now u num ts ?cs =
               (if \<not> active_check_ok env then Failed_to_check_active_calls
                else ActiveCallExists b, ?cs)" by blast
      with assms a t Inr p nothrow have r: "res = (if \<not> active_check_ok env then Failed_to_check_active_calls
                else ActiveCallExists b)" "calls s' = ?cs"
        by (auto simp: startCall_sequential split: prod.splits)
      with b show ?thesis by auto
    qed
  qed
  from both show "calls s' = ?cs" by blast
  from both show "res \<noteq> Call_started i c sid n" for i c sid n by blast
  assume "\<not> snd ?R \<and> (\<exists>num ts. load_profile_and_timestamp env s u = Inr (num, ts))
          \<and> active_check_ok env"
  with both show "http_status res = 409" by blast
  assume "\<not> snd ?R \<and> (\<exists>num ts. load_profile_and_timestamp env s u = Inr (num, ts))
          \<and> active_check_ok env"
  with both show "\<exists>a. res = ActiveCallExists a \<and> clerk_user_id a = u \<and> active a \<and> a \<in> set (calls s')"
    by blast
qed

theorem startCall_keeps_single_active_call_witness:
  "active_count ''u'' (calls one_dialing_call) \<le> 1
   \<and> active_count ''u'' (calls (snd (startCall example_call_env 2000 one_dialing_call))) \<le> 1
   \<and> calls (snd (startCall example_call_env 2000 one_dialing_call)) = calls one_dialing_call
   \<and> http_status (fst (startCall example_call_env 2000 one_dialing_call)) = 409"
proof -
  let ?r = "startCall example_call_env 2000 one_dialing_call"
  let ?R = "reconcileStuckCalls ''u'' (active_fetch example_call_env) 2000
               (el_query example_call_env) (reconcile_patch example_call_env)
               (calls one_dialing_call)"
  have run: "?r = (fst ?r, snd ?r)" by simp
  have h1: "active_count ''u'' (calls one_dialing_call) \<le> 1" by code_simp
  have h2: "auth_user example_call_env = Some ''u'' \<and> ''u'' \<noteq> [] \<and> 0 < active_count ''u'' (fst ?R)"
    by code_simp
  have l: "load_profile_and_timestamp example_call_env one_dialing_call ''u'' = Inr (''+15550100'', 7)"
    by code_simp
  have n: "\<not> snd ?R" by code_simp
  have k: "active_check_ok example_call_env" by code_simp
  from l have "\<exists>num ts. load_profile_and_timestamp example_call_env one_dialing_call ''u''
                          = Inr (num, ts)" by (intro exI)
  with n k have h3: "\<not> snd ?R \<and> (\<exists>num ts. load_profile_and_timestamp example_call_env one_dialing_call ''u''
                          = Inr (num, ts)) \<and> active_check_ok example_call_env"
    by (intro conjI)
  have h4: "fst ?R = calls one_dialing_call" by code_simp
  note T = startCall_keeps_single_active_call [OF run]
  from T h1 have a: "active_count ''u'' (calls (snd ?r)) \<le> 1" by blast
  from T h2 h3 have b: "http_status (fst ?r) = 409" by blast
  from T h2 have c: "calls (snd ?r) = fst ?R" by blast
  show ?thesis using a b c h1 h4 by simp
qed

text \<open>
  Claim C2 as stated fails for the claimer: a ready user with two due scheduled calls and
  no call gets two dialing calls from one sweep, and a later startCall, after its
  reconciliation pass (the provider reports both conversations as in progress), answers
  409 and leaves both active. It also fails for two requests of the dispatcher whose
  handlers interleave: a user with no call sends two requests, both pass the active-call
  check before either inserts, both are answered 200, and the user has two dialing calls.
\<close>

theorem claimer_dials_two_calls_counterexample:
  "active_count ''u'' (calls two_due_for_one_user) = 0
   \<and> fst (runDueCalls example_cron_env 1000 two_due_for_one_user) = Swept 2 2
   \<and> map status (calls (snd (runDueCalls example_cron_env 1000 two_due_for_one_user)))
       = [Dialing, Dialing]
   \<and> active_count ''u'' (calls (snd (runDueCalls example_cron_env 1000 two_due_for_one_user))) = 2
   \<and> http_status (fst (startCall example_call_env 2000
         (snd (runDueCalls example_cron_env 1000 two_due_for_one_user)))) = 409
   \<and> active_count ''u'' (calls (snd (startCall example_call_env 2000
         (snd (runDueCalls example_cron_env 1000 two_due_for_one_user))))) = 2
   \<and> active_count ''u'' (calls (example_store [] [])) = 0
   \<and> map http_status [fst (fst (both_check_then_insert example_call_env 2000 example_call_env 2001
                                  (example_store [] []))),
                       snd (fst (both_check_then_insert example_call_env 2000 example_call_env 2001
                                  (example_store [] [])))] = [200, 200]
   \<and> map status (calls (snd (both_check_then_insert example_call_env 2000 example_call_env 2001
                               (example_store [] []))))
       = [Dialing, Dialing]
   \<and> active_count ''u'' (calls (snd (both_check_then_insert example_call_env 2000 example_call_env
                                       2001 (example_store [] [])))) = 2"
  by code_simp

text \<open>
  Claim C7, as the code has it. The cancel operation sends one PATCH filtered by id and
  owner only. When the store answers it, every scheduled call with that id and owner
  becomes canceled, whatever its status was (pending, executing, executed, failed or
  canceled); every other row is unchanged.
\<close>

theorem cancel_ignores_status:
  assumes "auth_uid = Some u" and "u \<noteq> []"
    and "cancelScheduledCall auth_uid (Some i) True now rows = (res, rows')"
  shows "res = Cancel_success \<and> length rows' = length rows
       \<and> (\<forall>k < length rows.
             (sc_id (rows ! k) = i \<and> sc_clerk_user_id (rows ! k) = u
                \<longrightarrow> rows' ! k = (rows ! k)\<lparr>sc_status := Canceled, sc_updated_at := Some now\<rparr>)
           \<and> (\<not> (sc_id (rows ! k) = i \<and> sc_clerk_user_id (rows ! k) = u)
                \<longrightarrow> rows' ! k = rows ! k))"
  using assms by (auto simp: cancelScheduledCall_def truthy_str_def)

theorem cancel_ignores_status_witness:
  "sc_status (snd (cancelScheduledCall (Some ''u'') (Some 2) True 1000
        [example_sched 1 ''u'' 500 Pending, example_sched 2 ''u'' 600 Executed,
         example_sched 2 ''v'' 700 Pending]) ! 1) = Canceled
   \<and> snd (cancelScheduledCall (Some ''u'') (Some 2) True 1000
        [example_sched 1 ''u'' 500 Pending, example_sched 2 ''u'' 600 Executed,
         example_sched 2 ''v'' 700 Pending]) ! 2 = example_sched 2 ''v'' 700 Pending"
proof -
  let ?rows = "[example_sched 1 ''u'' 500 Pending, example_sched 2 ''u'' 600 Executed,
                example_sched 2 ''v'' 700 Pending]"
  let ?r = "cancelScheduledCall (Some ''u'') (Some 2) True 1000 ?rows"
  have run: "?r = (fst ?r, snd ?r)" by simp
  have ne: "''u'' \<noteq> []" by simp
  note T = cancel_ignores_status [OF refl ne run]
  have k1: "snd ?r ! 1 = (?rows ! 1)\<lparr>sc_status := Canceled, sc_updated_at := Some 1000\<rparr>"
    using T by (simp add: example_sched_def)
  have k2: "snd ?r ! 2 = ?rows ! 2" using T by (simp add: example_sched_def)
  show ?thesis unfolding k1 k2 by simp
qed

text \<open>
  Claim C7 as stated fails on a scheduled call that is executing: cancelling it sets it
  to canceled.
\<close>

theorem cancel_executing_counterexample:
  "sc_status (example_sched 1 ''u'' 500 Executing) = Executing
   \<and> fst (cancelScheduledCall (Some ''u'') (Some 1) True 1000 [example_sched 1 ''u'' 500 Executing])
       = Cancel_success
   \<and> map sc_status
       (snd (cancelScheduledCall (Some ''u'') (Some 1) True 1000 [example_sched 1 ''u'' 500 Executing]))
       = [Canceled]"
  by code_simp

section \<open>Claiming due scheduled calls\<close>

lemma select_due_subset:
  "set (select_due nowIso n rows) \<subseteq> {r \<in> set rows. sc_status r = Pending \<and> scheduled_for r \<le> nowIso}"
  by (auto simp: select_due_def dest: in_set_takeD)

lemma length_select_due: "length (select_due nowIso n rows) \<le> n"
  by (simp add: select_due_def)

lemma distinct_select_due:
  assumes "distinct (map sc_id rows)"
  shows "distinct (map sc_id (select_due nowIso n rows))"
proof -
  let ?xs = "filter (\<lambda>r. sc_status r = Pending \<and> scheduled_for r \<le> nowIso) rows"
  have "distinct (map sc_id ?xs)" using assms by (rule distinct_map_filter)
  then have "distinct (map sc_id (sort_key scheduled_for ?xs))" by (simp add: distinct_map)
  then have "distinct (take n (map sc_id (sort_key scheduled_for ?xs)))" by (rule distinct_take)
  then show ?thesis by (simp add: select_due_def take_map)
qed

subsection \<open>One attempt on its own is \<open>claimDueScheduled\<close>\<close>

lemma run_alone_returned:
  "at_phase a = Returned jobs \<Longrightarrow> run_alone n a rows = (a, rows)"
  by (induction n) (simp_all add: attempt_step_def)

lemma run_alone_threw:
  "at_phase a = Threw claimed \<Longrightarrow> run_alone n a rows = (a, rows)"
  by (induction n) (simp_all add: attempt_step_def)

lemma run_alone_loop:
  assumes "at_phase a = Patching due claimed" and "length due < n"
  shows "run_alone n a rows =
           (case claim_loop (at_now a) (claim_answer (at_env a)) due rows claimed of
              (rows', claimed', threw) \<Rightarrow>
                (a\<lparr>at_phase := (if threw then Threw claimed' else Returned claimed')\<rparr>, rows'))"
  using assms
proof (induction due arbitrary: n a rows claimed)
  case Nil
  then obtain m where n: "n = Suc m" by (cases n) simp_all
  have "run_alone m (a\<lparr>at_phase := Returned claimed\<rparr>) rows
          = (a\<lparr>at_phase := Returned claimed\<rparr>, rows)"
    by (rule run_alone_returned) simp
  with Nil.prems(1) show ?case unfolding n by (simp add: attempt_step_def)
next
  case (Cons row due)
  then obtain m where n: "n = Suc m" and m: "length due < m" by (cases n) simp_all
  show ?case
  proof (cases "claim_answer (at_env a) (sc_id row)")
    case Request_rejects
    have "run_alone m (a\<lparr>at_phase := Threw claimed\<rparr>) rows
            = (a\<lparr>at_phase := Threw claimed\<rparr>, rows)"
      by (rule run_alone_threw) simp
    with Cons.prems(1) Request_rejects show ?thesis
      unfolding n by (simp add: attempt_step_def)
  next
    case Answered_not_ok
    let ?a = "a\<lparr>at_phase := Patching due claimed\<rparr>"
    have s: "attempt_step a rows = (?a, rows)"
      using Cons.prems(1) Answered_not_ok by (simp add: attempt_step_def)
    have "at_phase ?a = Patching due claimed" by simp
    from Cons.IH [OF this m, of rows] Answered_not_ok s show ?thesis
      unfolding n by (simp split: prod.splits)
  next
    case Answered_ok
    obtain rows1 updated where cp: "claim_patch (at_now a) row rows = (rows1, updated)"
      by (cases "claim_patch (at_now a) row rows")
    let ?cl = "case updated of [] \<Rightarrow> claimed | u # us \<Rightarrow> claimed @ [u]"
    let ?a = "a\<lparr>at_phase := Patching due ?cl\<rparr>"
    have s: "attempt_step a rows = (?a, rows1)"
      using Cons.prems(1) Answered_ok cp by (simp add: attempt_step_def)
    have "at_phase ?a = Patching due ?cl" by simp
    from Cons.IH [OF this m, of rows1] Answered_ok s cp show ?thesis
      unfolding n by (simp split: prod.splits)
  qed
qed

lemma run_alone_claimDueScheduled:
  assumes "limit + 2 \<le> n"
  shows "outcome_of (fst (run_alone n (start_attempt env nowIso limit) rows))
           = Some (snd (claimDueScheduled env nowIso limit rows))
       \<and> snd (run_alone n (start_attempt env nowIso limit) rows)
           = fst (claimDueScheduled env nowIso limit rows)"
proof -
  from assms obtain m where n: "n = Suc m" and m: "limit < m" by (cases n) simp_all
  let ?a = "start_attempt env nowIso limit"
  show ?thesis
  proof (cases "rpc_answer env")
    case Request_rejects
    have "run_alone m (?a\<lparr>at_phase := Threw []\<rparr>) rows = (?a\<lparr>at_phase := Threw []\<rparr>, rows)"
      by (rule run_alone_threw) simp
    with Request_rejects show ?thesis
      unfolding n
      by (simp add: attempt_step_def start_attempt_def claimDueScheduled_def outcome_of_def)
  next
    case Answered_ok
    obtain rows1 jobs where r: "rpc_claim_due nowIso limit rows = (rows1, jobs)"
      by (cases "rpc_claim_due nowIso limit rows")
    have "run_alone m (?a\<lparr>at_phase := Returned jobs\<rparr>) rows1
            = (?a\<lparr>at_phase := Returned jobs\<rparr>, rows1)"
      by (rule run_alone_returned) simp
    with Answered_ok r show ?thesis
      unfolding n
      by (simp add: attempt_step_def start_attempt_def claimDueScheduled_def outcome_of_def)
  next
    case Answered_not_ok
    show ?thesis
    proof (cases "due_fetch_ok env")
      case False
      have "run_alone m (?a\<lparr>at_phase := Threw []\<rparr>) rows = (?a\<lparr>at_phase := Threw []\<rparr>, rows)"
        by (rule run_alone_threw) simp
      with Answered_not_ok False show ?thesis
        unfolding n
        by (simp add: attempt_step_def start_attempt_def claimDueScheduled_def outcome_of_def)
    next
      case True
      let ?due = "select_due nowIso limit rows"
      let ?b = "?a\<lparr>at_phase := Patching ?due []\<rparr>"
      have s: "attempt_step ?a rows = (?b, rows)"
        using Answered_not_ok True by (simp add: attempt_step_def start_attempt_def)
      have ph: "at_phase ?b = Patching ?due []" by simp
      have "length ?due \<le> limit" by (rule length_select_due)
      with m have len: "length ?due < m" by simp
      obtain rows1 claimed1 threw
        where l: "claim_loop nowIso (claim_answer env) ?due rows [] = (rows1, claimed1, threw)"
        by (cases "claim_loop nowIso (claim_answer env) ?due rows []")
      from run_alone_loop [OF ph len, of rows] l
      have "run_alone m ?b rows
              = (?b\<lparr>at_phase := (if threw then Threw claimed1 else Returned claimed1)\<rparr>, rows1)"
        by (simp add: start_attempt_def)
      with s l Answered_not_ok True show ?thesis
        unfolding n by (simp add: claimDueScheduled_def outcome_of_def)
    qed
  qed
qed

subsection \<open>What one request does to the table\<close>

lemma claims_only_id: "claims_only (\<lambda>r. r)"
  by (simp add: claims_only_def)

lemma claims_only_comp:
  assumes h: "claims_only h" and g: "claims_only g"
  shows "claims_only (\<lambda>r. g (h r))"
  unfolding claims_only_def
proof
  fix r
  from h have hr: "h r = r \<or> (sc_status r = Pending \<and> sc_status (h r) = Executing
                      \<and> sc_id (h r) = sc_id r \<and> scheduled_for (h r) = scheduled_for r)"
    by (simp add: claims_only_def)
  from g have gr: "g (h r) = h r \<or> (sc_status (h r) = Pending \<and> sc_status (g (h r)) = Executing
                      \<and> sc_id (g (h r)) = sc_id (h r) \<and> scheduled_for (g (h r)) = scheduled_for (h r))"
    by (simp add: claims_only_def)
  from hr gr
  show "g (h r) = r \<or> (sc_status r = Pending \<and> sc_status (g (h r)) = Executing
                      \<and> sc_id (g (h r)) = sc_id r \<and> scheduled_for (g (h r)) = scheduled_for r)"
    by auto
qed

lemma claims_only_ids: "claims_only h \<Longrightarrow> sc_id (h r) = sc_id r"
  unfolding claims_only_def by (erule allE [of _ r]) auto

lemma claims_only_map_ids: "claims_only h \<Longrightarrow> map sc_id (map h rows) = map sc_id rows"
  by (simp add: claims_only_ids)

lemma claims_only_executing:
  "claims_only h \<Longrightarrow> sc_status r = Executing \<Longrightarrow> h r = r"
  unfolding claims_only_def by (erule allE [of _ r]) auto

lemma claims_only_pending:
  "claims_only h \<Longrightarrow> sc_status r = Pending \<Longrightarrow> h r = r \<or> sc_status (h r) = Executing"
  unfolding claims_only_def by (erule allE [of _ r]) auto

text \<open>The remote procedure and the conditional PATCH as maps over the table.\<close>

lemma rpc_claims_only:
  "claims_only (\<lambda>r. if r \<in> set (select_due nowIso n rows) then r\<lparr>sc_status := Executing\<rparr> else r)"
  unfolding claims_only_def
proof
  fix r
  have "r \<in> set (select_due nowIso n rows) \<Longrightarrow> sc_status r = Pending"
    using select_due_subset by fastforce
  then show "(if r \<in> set (select_due nowIso n rows) then r\<lparr>sc_status := Executing\<rparr> else r) = r
      \<or> (sc_status r = Pending
         \<and> sc_status (if r \<in> set (select_due nowIso n rows) then r\<lparr>sc_status := Executing\<rparr> else r)
             = Executing
         \<and> sc_id (if r \<in> set (select_due nowIso n rows) then r\<lparr>sc_status := Executing\<rparr> else r)
             = sc_id r
         \<and> scheduled_for (if r \<in> set (select_due nowIso n rows) then r\<lparr>sc_status := Executing\<rparr> else r)
             = scheduled_for r)"
    by simp
qed

lemma patch_claims_only:
  "claims_only (\<lambda>r. if sc_id r = sc_id row \<and> sc_status r = Pending
                     then claim_update nowIso row r else r)"
  by (simp add: claims_only_def claim_update_def)

lemma count_by_id:
  assumes "distinct (map sc_id xs)"
  shows "length (filter (\<lambda>r. sc_id r = i) xs) = (if i \<in> sc_id ` set xs then 1 else 0)"
  using assms by (induction xs) (auto simp: image_iff)

text \<open>Rows that are still pending are the rows of the first table that no request has
  touched, so a query for due rows gives every row it gave on the first table, unless
  the row has been claimed.\<close>

lemma filter_after_requests:
  assumes "claims_only h"
  shows "filter (\<lambda>r. sc_status r = Pending \<and> scheduled_for r \<le> t) (map h rows)
       = filter (\<lambda>r. h r = r) (filter (\<lambda>r. sc_status r = Pending \<and> scheduled_for r \<le> t) rows)"
proof (induction rows)
  case Nil
  then show ?case by simp
next
  case (Cons r rows)
  from assms have "h r = r \<or> (sc_status r = Pending \<and> sc_status (h r) = Executing
                      \<and> sc_id (h r) = sc_id r \<and> scheduled_for (h r) = scheduled_for r)"
    by (simp add: claims_only_def)
  then show ?case
  proof
    assume "h r = r" with Cons show ?thesis by simp
  next
    assume "sc_status r = Pending \<and> sc_status (h r) = Executing
              \<and> sc_id (h r) = sc_id r \<and> scheduled_for (h r) = scheduled_for r"
    then have "sc_status (h r) \<noteq> Pending" "h r \<noteq> r" by auto
    with Cons show ?thesis by simp
  qed
qed

lemma take_filter_keeps:
  "x \<in> set (take n ys) \<Longrightarrow> Q x \<Longrightarrow> x \<in> set (take n (filter Q ys))"
proof (induction ys arbitrary: n)
  case Nil
  then show ?case by simp
next
  case (Cons y ys)
  then obtain m where n: "n = Suc m" by (cases n) simp_all
  show ?case
  proof (cases "x = y")
    case True
    with Cons.prems(2) show ?thesis unfolding n by simp
  next
    case False
    with Cons.prems(1) have "x \<in> set (take m ys)" unfolding n by simp
    from Cons.IH [OF this Cons.prems(2)] have i: "x \<in> set (take m (filter Q ys))" .
    show ?thesis
    proof (cases "Q y")
      case True
      with i show ?thesis unfolding n by simp
    next
      case False
      have "set (take m (filter Q ys)) \<subseteq> set (take (Suc m) (filter Q ys))"
        by (rule set_take_subset_set_take) simp
      with i False show ?thesis unfolding n by auto
    qed
  qed
qed

lemma select_due_after_requests:
  assumes h: "claims_only h" and r: "r \<in> set (select_due t n rows)" and same: "h r = r"
  shows "r \<in> set (select_due t n (map h rows))"
proof -
  let ?P = "\<lambda>r. sc_status r = Pending \<and> scheduled_for r \<le> t"
  have "sort_key scheduled_for (filter ?P (map h rows))
          = sort_key scheduled_for (filter (\<lambda>r. h r = r) (filter ?P rows))"
    by (simp only: filter_after_requests [OF h])
  also have "\<dots> = filter (\<lambda>r. h r = r) (sort_key scheduled_for (filter ?P rows))"
    by (rule filter_sort [symmetric])
  finally have e: "select_due t n (map h rows)
          = take n (filter (\<lambda>r. h r = r) (sort_key scheduled_for (filter ?P rows)))"
    by (simp add: select_due_def)
  from r have "r \<in> set (take n (sort_key scheduled_for (filter ?P rows)))"
    by (simp add: select_due_def)
  then have "r \<in> set (take n (filter (\<lambda>r. h r = r) (sort_key scheduled_for (filter ?P rows))))"
    using same by (rule take_filter_keeps)
  with e show ?thesis by simp
qed

subsection \<open>What one request does to one row, and who gets it\<close>

lemma row_by_id:
  assumes d: "distinct (map sc_id rows)" and k: "k < length rows"
    and x: "x \<in> set rows" and i: "sc_id x = sc_id (rows ! k)"
  shows "x = rows ! k"
proof -
  from d have "inj_on sc_id (set rows)" by (simp add: distinct_map)
  moreover from k have "rows ! k \<in> set rows" by simp
  ultimately show ?thesis using x i by (auto dest: inj_onD)
qed

lemma rpc_claim_due_row:
  assumes d: "distinct (map sc_id rows)" and k: "k < length rows"
    and r: "rpc_claim_due t n rows = (rows', jobs)"
  shows "length (filter (\<lambda>r. sc_id r = sc_id (rows ! k)) jobs)
           = (if rows ! k \<in> set (select_due t n rows) then 1 else 0)"
    and "rows' ! k = (if rows ! k \<in> set (select_due t n rows)
                      then (rows ! k)\<lparr>sc_status := Executing\<rparr> else rows ! k)"
proof -
  let ?due = "select_due t n rows"
  let ?i = "sc_id (rows ! k)"
  from r have jobs: "jobs = map (\<lambda>r. r\<lparr>sc_status := Executing\<rparr>) ?due"
    and rows': "rows' = map (\<lambda>r. if r \<in> set ?due then r\<lparr>sc_status := Executing\<rparr> else r) rows"
    by (simp_all add: rpc_claim_due_def Let_def)
  have "filter (\<lambda>r. sc_id r = ?i) jobs
          = map (\<lambda>r. r\<lparr>sc_status := Executing\<rparr>) (filter (\<lambda>r. sc_id r = ?i) ?due)"
    unfolding jobs by (simp add: filter_map comp_def)
  then have "length (filter (\<lambda>r. sc_id r = ?i) jobs) = length (filter (\<lambda>r. sc_id r = ?i) ?due)"
    by simp
  also have "\<dots> = (if ?i \<in> sc_id ` set ?due then 1 else 0)"
    by (rule count_by_id) (rule distinct_select_due [OF d])
  also have "?i \<in> sc_id ` set ?due \<longleftrightarrow> rows ! k \<in> set ?due"
  proof
    assume "?i \<in> sc_id ` set ?due"
    then obtain x where x: "x \<in> set ?due" and i: "sc_id x = ?i" by auto
    from x select_due_subset have "x \<in> set rows" by fastforce
    from row_by_id [OF d k this i] x show "rows ! k \<in> set ?due" by simp
  next
    assume "rows ! k \<in> set ?due" then show "?i \<in> sc_id ` set ?due" by (rule imageI)
  qed
  finally show "length (filter (\<lambda>r. sc_id r = ?i) jobs) = (if rows ! k \<in> set ?due then 1 else 0)" .
  from k show "rows' ! k = (if rows ! k \<in> set ?due
                      then (rows ! k)\<lparr>sc_status := Executing\<rparr> else rows ! k)"
    unfolding rows' by simp
qed

lemma claim_patch_row:
  assumes d: "distinct (map sc_id rows)" and k: "k < length rows"
    and c: "claim_patch t row rows = (rows', updated)"
  shows "length (filter (\<lambda>r. sc_id r = sc_id (rows ! k)) (case updated of [] \<Rightarrow> [] | u # us \<Rightarrow> [u]))
           = (if sc_id row = sc_id (rows ! k) \<and> sc_status (rows ! k) = Pending then 1 else 0)"
    and "rows' ! k = (if sc_id (rows ! k) = sc_id row \<and> sc_status (rows ! k) = Pending
                      then claim_update t row (rows ! k) else rows ! k)"
proof -
  let ?i = "sc_id (rows ! k)"
  let ?hits = "filter (\<lambda>r. sc_id r = sc_id row \<and> sc_status r = Pending) rows"
  from c have updated: "updated = map (claim_update t row) ?hits"
    and rows': "rows' = map (\<lambda>r. if sc_id r = sc_id row \<and> sc_status r = Pending
                                  then claim_update t row r else r) rows"
    by (simp_all add: claim_patch_def)
  have id: "sc_id (claim_update t row x) = sc_id x" for x by (simp add: claim_update_def)
  show "length (filter (\<lambda>r. sc_id r = ?i) (case updated of [] \<Rightarrow> [] | u # us \<Rightarrow> [u]))
           = (if sc_id row = ?i \<and> sc_status (rows ! k) = Pending then 1 else 0)"
  proof (cases "sc_id row = ?i")
    case False
    show ?thesis
    proof (cases ?hits)
      case Nil
      with False show ?thesis unfolding updated by simp
    next
      case (Cons x xs)
      then have "x \<in> set ?hits" by simp
      then have "sc_id x = sc_id row" by simp
      with False Cons id show ?thesis unfolding updated by simp
    qed
  next
    case True
    show ?thesis
    proof (cases "sc_status (rows ! k) = Pending")
      case pending: True
      from k True pending have "rows ! k \<in> set ?hits" by simp
      then obtain x xs where h: "?hits = x # xs" by (cases ?hits) auto
      then have "x \<in> set ?hits" by simp
      then have "sc_id x = sc_id row" by simp
      with True pending h id show ?thesis unfolding updated by simp
    next
      case False
      have "?hits = []"
      proof (rule ccontr)
        assume "?hits \<noteq> []"
        then obtain x xs where h: "?hits = x # xs" by (cases ?hits) auto
        then have "x \<in> set ?hits" by simp
        then have x: "x \<in> set rows" "sc_id x = sc_id row" "sc_status x = Pending" by simp_all
        from x(2) True have "sc_id x = ?i" by simp
        from row_by_id [OF d k x(1) this] x(3) False show False by simp
      qed
      with False show ?thesis unfolding updated by simp
    qed
  qed
  from k show "rows' ! k = (if sc_id (rows ! k) = sc_id row \<and> sc_status (rows ! k) = Pending
                      then claim_update t row (rows ! k) else rows ! k)"
    unfolding rows' by simp
qed

lemma attempt_step_static:
  assumes "attempt_step a rows = (a', rows')"
  shows "at_env a' = at_env a \<and> at_now a' = at_now a \<and> at_limit a' = at_limit a"
proof (cases "at_phase a")
  case Not_started
  with assms show ?thesis
    by (auto simp: attempt_step_def split: if_splits prod.splits answer.splits)
next
  case (Patching due claimed)
  with assms show ?thesis
    by (cases due) (auto simp: attempt_step_def split: if_splits prod.splits answer.splits)
next
  case (Returned jobs)
  with assms show ?thesis by (simp add: attempt_step_def)
next
  case (Threw claimed)
  with assms show ?thesis by (simp add: attempt_step_def)
qed

lemma attempt_step_table:
  assumes "attempt_step a rows = (a', rows')"
  shows "\<exists>g. claims_only g \<and> rows' = map g rows"
proof -
  have same: "\<exists>g. claims_only g \<and> rows = map g rows"
    using claims_only_id by (intro exI [of _ "\<lambda>r. r"]) simp
  show ?thesis
  proof (cases "at_phase a")
    case Not_started
    show ?thesis
    proof (cases "rpc_answer (at_env a) = Answered_ok")
      case True
      with assms Not_started
      have "rows' = map (\<lambda>r. if r \<in> set (select_due (at_now a) (at_limit a) rows)
                             then r\<lparr>sc_status := Executing\<rparr> else r) rows"
        by (auto simp: attempt_step_def rpc_claim_due_def Let_def)
      with rpc_claims_only show ?thesis by blast
    next
      case False
      with assms Not_started have "rows' = rows"
        by (auto simp: attempt_step_def split: if_splits answer.splits)
      with same show ?thesis by simp
    qed
  next
    case (Patching due claimed)
    show ?thesis
    proof (cases due)
      case Nil
      with assms Patching have "rows' = rows" by (simp add: attempt_step_def)
      with same show ?thesis by simp
    next
      case (Cons row rest)
      show ?thesis
      proof (cases "claim_answer (at_env a) (sc_id row) = Answered_ok")
        case False
        with assms Patching Cons have "rows' = rows"
          by (auto simp: attempt_step_def split: answer.splits)
        with same show ?thesis by simp
      next
        case True
        with assms Patching Cons
        have "rows' = map (\<lambda>r. if sc_id r = sc_id row \<and> sc_status r = Pending
                               then claim_update (at_now a) row r else r) rows"
          by (auto simp: attempt_step_def claim_patch_def)
        with patch_claims_only show ?thesis by blast
      qed
    qed
  next
    case (Returned jobs)
    with assms have "rows' = rows" by (simp add: attempt_step_def)
    with same show ?thesis by simp
  next
    case (Threw claimed)
    with assms have "rows' = rows" by (simp add: attempt_step_def)
    with same show ?thesis by simp
  qed
qed

text \<open>A step claims the row for its attempt exactly when it takes the row to executing.\<close>

lemma attempt_step_count:
  assumes d: "distinct (map sc_id rows)" and k: "k < length rows"
    and step: "attempt_step a rows = (a', rows')"
  shows "length (filter (\<lambda>r. sc_id r = sc_id (rows ! k)) (claimed_by a'))
         = length (filter (\<lambda>r. sc_id r = sc_id (rows ! k)) (claimed_by a))
           + (if sc_status (rows ! k) \<noteq> Executing \<and> sc_status (rows' ! k) = Executing
              then 1 else 0)"
proof (cases "at_phase a")
  case Not_started
  show ?thesis
  proof (cases "rpc_answer (at_env a) = Answered_ok")
    case True
    obtain rows1 jobs where r: "rpc_claim_due (at_now a) (at_limit a) rows = (rows1, jobs)"
      by (cases "rpc_claim_due (at_now a) (at_limit a) rows")
    from step Not_started True r
    have a': "claimed_by a' = jobs" and rows': "rows' = rows1"
      by (auto simp: attempt_step_def claimed_by_def)
    have "rows ! k \<in> set (select_due (at_now a) (at_limit a) rows) \<Longrightarrow> sc_status (rows ! k) = Pending"
      using select_due_subset by fastforce
    with rpc_claim_due_row [OF d k r] Not_started show ?thesis
      unfolding a' rows' by (auto simp: claimed_by_def)
  next
    case False
    with step Not_started have "rows' = rows" "claimed_by a' = []"
      by (auto simp: attempt_step_def claimed_by_def split: if_splits answer.splits)
    with Not_started show ?thesis by (simp add: claimed_by_def)
  qed
next
  case (Patching due claimed)
  show ?thesis
  proof (cases due)
    case Nil
    with step Patching have "rows' = rows" "claimed_by a' = claimed"
      by (auto simp: attempt_step_def claimed_by_def)
    with Patching show ?thesis by (simp add: claimed_by_def)
  next
    case (Cons row rest)
    show ?thesis
    proof (cases "claim_answer (at_env a) (sc_id row) = Answered_ok")
      case False
      with step Patching Cons have "rows' = rows" "claimed_by a' = claimed"
        by (auto simp: attempt_step_def claimed_by_def split: answer.splits)
      with Patching show ?thesis by (simp add: claimed_by_def)
    next
      case True
      obtain rows1 updated where c: "claim_patch (at_now a) row rows = (rows1, updated)"
        by (cases "claim_patch (at_now a) row rows")
      have "(case updated of [] \<Rightarrow> claimed | u # us \<Rightarrow> claimed @ [u])
              = claimed @ (case updated of [] \<Rightarrow> [] | u # us \<Rightarrow> [u])"
        by (cases updated) simp_all
      with step Patching Cons True c
      have a': "claimed_by a' = claimed @ (case updated of [] \<Rightarrow> [] | u # us \<Rightarrow> [u])"
        and rows': "rows' = rows1"
        by (auto simp: attempt_step_def claimed_by_def)
      have st: "sc_status (claim_update (at_now a) row (rows ! k)) = Executing"
        by (simp add: claim_update_def)
      from claim_patch_row [OF d k c] Patching st show ?thesis
        unfolding a' rows' by (auto simp: claimed_by_def)
    qed
  qed
next
  case (Returned jobs)
  with step have "rows' = rows" "a' = a" by (auto simp: attempt_step_def)
  then show ?thesis by simp
next
  case (Threw claimed)
  with step have "rows' = rows" "a' = a" by (auto simp: attempt_step_def)
  then show ?thesis by simp
qed

lemma claims_update:
  "j < length atts \<Longrightarrow>
     claims i (atts[j := a']) + length (filter (\<lambda>r. sc_id r = i) (claimed_by (atts ! j)))
       = claims i atts + length (filter (\<lambda>r. sc_id r = i) (claimed_by a'))"
proof (induction atts arbitrary: j)
  case Nil
  then show ?case by simp
next
  case (Cons a atts)
  show ?case
  proof (cases j)
    case 0
    then show ?thesis by (simp add: claims_def)
  next
    case (Suc m)
    with Cons.prems have "m < length atts" by simp
    from Cons.IH [OF this] Suc show ?thesis by (simp add: claims_def)
  qed
qed

lemma attempt_step_course:
  assumes h: "claims_only h" and rows: "rows = map h rows0"
    and d0: "distinct (map sc_id rows0)" and k: "k < length rows0"
    and p: "sc_status (rows0 ! k) = Pending"
    and after: "after_row a (rows0 ! k) rows0"
    and oc: "on_course a (sc_id (rows0 ! k)) (sc_status (rows ! k) = Executing)"
    and step: "attempt_step a rows = (a', rows')"
  shows "on_course a' (sc_id (rows0 ! k)) (sc_status (rows' ! k) = Executing)"
proof -
  let ?i = "sc_id (rows0 ! k)"
  from k rows have rk: "rows ! k = h (rows0 ! k)" and klen: "k < length rows" by simp_all
  from claims_only_pending [OF h p] rk
  have alt: "sc_status (rows ! k) \<noteq> Executing \<Longrightarrow> rows ! k = rows0 ! k \<and> h (rows0 ! k) = rows0 ! k"
    by auto
  from d0 have d: "distinct (map sc_id rows)"
    unfolding rows by (simp only: claims_only_map_ids [OF h])
  from rk have idk: "sc_id (rows ! k) = ?i" by (simp add: claims_only_ids [OF h])
  from after have sel0: "rows0 ! k \<in> set (select_due (at_now a) (at_limit a) rows0)"
    and ans: "rpc_answer (at_env a) = Answered_ok
              \<or> (rpc_answer (at_env a) = Answered_not_ok \<and> due_fetch_ok (at_env a)
                 \<and> claim_answer (at_env a) ?i = Answered_ok)"
    by (simp_all add: after_row_def)
  have sel: "rows ! k \<in> set (select_due (at_now a) (at_limit a) rows)"
    if "sc_status (rows ! k) \<noteq> Executing"
  proof -
    from alt [OF that] have same: "h (rows0 ! k) = rows0 ! k" and e: "rows ! k = rows0 ! k"
      by simp_all
    from select_due_after_requests [OF h sel0 same] show ?thesis unfolding rows [symmetric] e .
  qed
  show ?thesis
  proof (cases "at_phase a")
    case Not_started
    show ?thesis
    proof (cases "rpc_answer (at_env a) = Answered_ok")
      case True
      obtain rows1 jobs where r: "rpc_claim_due (at_now a) (at_limit a) rows = (rows1, jobs)"
        by (cases "rpc_claim_due (at_now a) (at_limit a) rows")
      from step Not_started True r
      have a': "at_phase a' = Returned jobs" and rows': "rows' = rows1"
        by (auto simp: attempt_step_def)
      from rpc_claim_due_row(2) [OF d klen r] sel
      have "sc_status (rows1 ! k) = Executing"
        by (cases "rows ! k \<in> set (select_due (at_now a) (at_limit a) rows)") auto
      with a' rows' show ?thesis by (simp add: on_course_def)
    next
      case False
      with ans have n: "rpc_answer (at_env a) = Answered_not_ok" and f: "due_fetch_ok (at_env a)"
        by simp_all
      from step Not_started n f
      have a': "at_phase a' = Patching (select_due (at_now a) (at_limit a) rows) []"
        and env: "at_env a' = at_env a" and rows': "rows' = rows"
        by (auto simp: attempt_step_def)
      show ?thesis
      proof (cases "sc_status (rows ! k) = Executing")
        case True
        with a' env rows' n show ?thesis by (simp add: on_course_def)
      next
        case ne: False
        from sel [OF ne] have "sc_id (rows ! k) \<in> sc_id ` set (select_due (at_now a) (at_limit a) rows)"
          by (rule imageI)
        with a' env rows' n idk show ?thesis by (simp add: on_course_def)
      qed
    qed
  next
    case (Patching due claimed)
    with oc have norpc: "rpc_answer (at_env a) \<noteq> Answered_ok"
      and here: "?i \<in> set (map sc_id due) \<or> sc_status (rows ! k) = Executing"
      by (simp_all add: on_course_def)
    from ans norpc have ok: "claim_answer (at_env a) ?i = Answered_ok" by simp
    show ?thesis
    proof (cases due)
      case Nil
      with step Patching have "at_phase a' = Returned claimed" "rows' = rows"
        by (auto simp: attempt_step_def)
      with here Nil show ?thesis by (simp add: on_course_def)
    next
      case (Cons row rest)
      show ?thesis
      proof (cases "claim_answer (at_env a) (sc_id row)")
        case Request_rejects
        with step Patching Cons have "at_phase a' = Threw claimed"
          by (auto simp: attempt_step_def)
        then show ?thesis by (simp add: on_course_def)
      next
        case Answered_not_ok
        with ok have ne: "sc_id row \<noteq> ?i" by auto
        from step Patching Cons Answered_not_ok
        have "at_phase a' = Patching rest claimed" "at_env a' = at_env a" "rows' = rows"
          by (auto simp: attempt_step_def)
        with here Cons ne norpc show ?thesis by (auto simp: on_course_def)
      next
        case Answered_ok
        obtain rows1 updated where c: "claim_patch (at_now a) row rows = (rows1, updated)"
          by (cases "claim_patch (at_now a) row rows")
        from step Patching Cons Answered_ok c
        have a': "at_phase a' = Patching rest (case updated of [] \<Rightarrow> claimed | u # us \<Rightarrow> claimed @ [u])"
          and env: "at_env a' = at_env a" and rows': "rows' = rows1"
          by (auto simp: attempt_step_def)
        have st: "sc_status (claim_update (at_now a) row (rows ! k)) = Executing"
          by (simp add: claim_update_def)
        note after_patch = claim_patch_row(2) [OF d klen c]
        show ?thesis
        proof (cases "sc_status (rows ! k) = Executing")
          case ex: True
          with after_patch have "rows1 ! k = rows ! k" by simp
          with ex a' env rows' norpc show ?thesis by (simp add: on_course_def)
        next
          case ne: False
          with alt p have pend: "sc_status (rows ! k) = Pending" by simp
          from ne here Cons have "sc_id row = ?i \<or> ?i \<in> set (map sc_id rest)" by auto
          then show ?thesis
          proof
            assume "sc_id row = ?i"
            with after_patch pend idk st have "sc_status (rows1 ! k) = Executing" by simp
            with a' env rows' norpc show ?thesis by (simp add: on_course_def)
          next
            assume "?i \<in> set (map sc_id rest)"
            with a' env rows' norpc show ?thesis by (simp add: on_course_def)
          qed
        qed
      qed
    qed
  next
    case (Returned jobs)
    with step have "a' = a" "rows' = rows" by (auto simp: attempt_step_def)
    with oc show ?thesis by simp
  next
    case (Threw claimed)
    with step have "a' = a" "rows' = rows" by (auto simp: attempt_step_def)
    with oc show ?thesis by simp
  qed
qed

lemma on_course_later:
  "on_course a i e \<Longrightarrow> (e \<Longrightarrow> e') \<Longrightarrow> on_course a i e'"
  by (cases "at_phase a") (auto simp: on_course_def)

lemma attempt_step_inv:
  assumes d0: "distinct (map sc_id rows0)" and k: "k < length rows0"
    and p: "sc_status (rows0 ! k) = Pending"
    and inv: "claim_inv rows0 k atts rows"
    and j: "j < length atts"
    and step: "attempt_step (atts ! j) rows = (a', rows')"
  shows "claim_inv rows0 k (atts[j := a']) rows'"
    and "claims (sc_id (rows0 ! k)) (atts[j := a'])
           = claims (sc_id (rows0 ! k)) atts
             + (if sc_status (rows ! k) \<noteq> Executing \<and> sc_status (rows' ! k) = Executing
                then 1 else 0)"
proof -
  let ?i = "sc_id (rows0 ! k)"
  from inv obtain h where h: "claims_only h" and rows: "rows = map h rows0"
    and cl: "claims ?i atts = (if sc_status (rows ! k) = Executing then 1 else 0)"
    and course: "\<And>a. a \<in> set atts \<Longrightarrow> after_row a (rows0 ! k) rows0
                   \<Longrightarrow> on_course a ?i (sc_status (rows ! k) = Executing)"
    unfolding claim_inv_def by blast
  from attempt_step_table [OF step] obtain g where g: "claims_only g" and rows': "rows' = map g rows"
    by blast
  from k rows have rk: "rows ! k = h (rows0 ! k)" and klen: "k < length rows" by simp_all
  from d0 have d: "distinct (map sc_id rows)"
    unfolding rows by (simp only: claims_only_map_ids [OF h])
  from rk have idk: "sc_id (rows ! k) = ?i" by (simp add: claims_only_ids [OF h])
  from klen rows' have rk': "rows' ! k = g (rows ! k)" by simp
  have stays: "sc_status (rows ! k) = Executing \<Longrightarrow> sc_status (rows' ! k) = Executing"
    using claims_only_executing [OF g, of "rows ! k"] rk' by simp
  have h': "claims_only (\<lambda>r. g (h r))" using h g by (rule claims_only_comp)
  have rows'0: "rows' = map (\<lambda>r. g (h r)) rows0" unfolding rows' rows by simp
  from claims_only_pending [OF h' p] k rows'0
  have two: "sc_status (rows' ! k) = Executing \<or> rows' ! k = rows0 ! k" by auto
  let ?t = "if sc_status (rows ! k) \<noteq> Executing \<and> sc_status (rows' ! k) = Executing
            then 1 else 0 :: nat"
  from attempt_step_count [OF d klen step]
  have "length (filter (\<lambda>r. sc_id r = ?i) (claimed_by a'))
          = length (filter (\<lambda>r. sc_id r = ?i) (claimed_by (atts ! j))) + ?t"
    unfolding idk .
  with claims_update [OF j, of ?i a']
  show count: "claims ?i (atts[j := a']) = claims ?i atts + ?t" by simp
  have c': "claims ?i (atts[j := a']) = (if sc_status (rows' ! k) = Executing then 1 else 0)"
    unfolding count cl using stays by simp
  have course': "on_course b ?i (sc_status (rows' ! k) = Executing)"
    if b: "b \<in> set (atts[j := a'])" and after: "after_row b (rows0 ! k) rows0" for b
  proof (cases "b = a'")
    case True
    from attempt_step_static [OF step]
    have "after_row (atts ! j) (rows0 ! k) rows0 = after_row a' (rows0 ! k) rows0"
      by (simp add: after_row_def)
    with after True have aj: "after_row (atts ! j) (rows0 ! k) rows0" by simp
    from j have "atts ! j \<in> set atts" by simp
    from course [OF this aj]
    have "on_course (atts ! j) ?i (sc_status (rows ! k) = Executing)" .
    from attempt_step_course [OF h rows d0 k p aj this step] True show ?thesis by simp
  next
    case False
    with b have "b \<in> set atts" using set_update_subset_insert [of atts j a'] by auto
    from course [OF this after] stays show ?thesis by (rule on_course_later)
  qed
  from h' rows'0 c' course' show "claim_inv rows0 k (atts[j := a']) rows'"
    unfolding claim_inv_def by blast
qed

lemma claims_not_started:
  "\<forall>a \<in> set atts. at_phase a = Not_started \<Longrightarrow> claims i atts = 0"
  by (induction atts) (simp_all add: claims_def claimed_by_def)

lemma claim_inv_start:
  assumes "sc_status (rows0 ! k) = Pending" and "\<forall>a \<in> set atts. at_phase a = Not_started"
  shows "claim_inv rows0 k atts rows0"
proof -
  have "\<exists>h. claims_only h \<and> rows0 = map h rows0"
    using claims_only_id by (intro exI [of _ "\<lambda>r. r"]) simp
  moreover have "claims (sc_id (rows0 ! k)) atts = 0" using assms(2) by (rule claims_not_started)
  moreover have "on_course a (sc_id (rows0 ! k)) False" if "a \<in> set atts" for a
    using assms(2) that by (simp add: on_course_def)
  ultimately show ?thesis using assms(1) by (simp add: claim_inv_def)
qed

lemma run_interleaved_inv:
  assumes d0: "distinct (map sc_id rows0)" and k: "k < length rows0"
    and p: "sc_status (rows0 ! k) = Pending"
  shows "claim_inv rows0 k atts rows \<Longrightarrow> run_interleaved schedule atts rows = (atts', rows')
         \<Longrightarrow> claim_inv rows0 k atts' rows'
             \<and> claims (sc_id (rows0 ! k)) atts'
                 = claims (sc_id (rows0 ! k)) atts + transitions k schedule atts rows"
proof (induction schedule arbitrary: atts rows)
  case Nil
  then show ?case by simp
next
  case (Cons j schedule)
  show ?case
  proof (cases "j < length atts")
    case False
    with Cons.prems(2) have "run_interleaved schedule atts rows = (atts', rows')" by simp
    from Cons.IH [OF Cons.prems(1) this] False show ?thesis by simp
  next
    case True
    obtain a1 rows1 where step: "attempt_step (atts ! j) rows = (a1, rows1)"
      by (cases "attempt_step (atts ! j) rows")
    from Cons.prems(2) True step
    have run: "run_interleaved schedule (atts[j := a1]) rows1 = (atts', rows')" by simp
    note s = attempt_step_inv [OF d0 k p Cons.prems(1) True step]
    from Cons.IH [OF s(1) run] s(2) True step show ?thesis by simp
  qed
qed

lemma run_interleaved_single:
  "run_interleaved (replicate n 0) [a] rows = ([fst (run_alone n a rows)], snd (run_alone n a rows))"
  by (induction n arbitrary: a rows) (simp_all split: prod.splits)

section \<open>The claim about concurrent claims\<close>

text \<open>
  Claim C5. Take any table of scheduled calls with distinct ids, a row of it that is
  pending, any number of invocations of \<open>claimDueScheduled\<close> that have not yet sent a
  request (each with its own clock, limit and answers of the store, by the remote
  procedure or by the fallback), and any schedule of their requests. Whatever the
  schedule, the invocations claim the row at most once all together, as many times as a
  request takes the row to executing; it is claimed exactly when it is executing
  afterwards, and otherwise the row is as it was. When some invocation has returned whose
  query for due rows gives the row on the first table and whose requests for it the
  store answers with 2xx (the remote procedure, or the select and the PATCH for this
  row), the row is claimed exactly once and is executing. An invocation that runs with
  no request of another in between does what \<open>claimDueScheduled\<close> does: the same table,
  and the same jobs or the same throw.
\<close>

theorem claim_exactly_once:
  assumes "distinct (map sc_id rows)" and "k < length rows"
    and "sc_status (rows ! k) = Pending"
    and "\<forall>a \<in> set atts. at_phase a = Not_started"
    and "run_interleaved schedule atts rows = (atts', rows')"
  shows "claims (sc_id (rows ! k)) atts' \<le> 1
       \<and> claims (sc_id (rows ! k)) atts' = transitions k schedule atts rows
       \<and> (claims (sc_id (rows ! k)) atts' = 1 \<longleftrightarrow> sc_status (rows' ! k) = Executing)
       \<and> (claims (sc_id (rows ! k)) atts' = 0 \<longleftrightarrow> rows' ! k = rows ! k)
       \<and> sc_id (rows' ! k) = sc_id (rows ! k)
       \<and> (\<forall>a \<in> set atts'. returned a \<and> after_row a (rows ! k) rows \<longrightarrow>
             claims (sc_id (rows ! k)) atts' = 1 \<and> sc_status (rows' ! k) = Executing)
       \<and> (\<forall>env nowIso limit n. limit + 2 \<le> n \<longrightarrow>
             map outcome_of
                 (fst (run_interleaved (replicate n 0) [start_attempt env nowIso limit] rows))
               = [Some (snd (claimDueScheduled env nowIso limit rows))]
             \<and> snd (run_interleaved (replicate n 0) [start_attempt env nowIso limit] rows)
               = fst (claimDueScheduled env nowIso limit rows))"
proof -
  let ?i = "sc_id (rows ! k)"
  from assms(3,4) have "claim_inv rows k atts rows" by (rule claim_inv_start)
  from run_interleaved_inv [OF assms(1,2,3) this assms(5)]
  have inv: "claim_inv rows k atts' rows'"
    and tr: "claims ?i atts' = claims ?i atts + transitions k schedule atts rows"
    by simp_all
  from assms(4) have "claims ?i atts = 0" by (rule claims_not_started)
  with tr have c2: "claims ?i atts' = transitions k schedule atts rows" by simp
  from inv obtain h where h: "claims_only h" and rows': "rows' = map h rows"
    and cl: "claims ?i atts' = (if sc_status (rows' ! k) = Executing then 1 else 0)"
    and course: "\<And>a. a \<in> set atts' \<Longrightarrow> after_row a (rows ! k) rows
                   \<Longrightarrow> on_course a ?i (sc_status (rows' ! k) = Executing)"
    unfolding claim_inv_def by blast
  from assms(2) rows' have rk: "rows' ! k = h (rows ! k)" by simp
  from cl have c1: "claims ?i atts' \<le> 1" by simp
  from cl have c3: "claims ?i atts' = 1 \<longleftrightarrow> sc_status (rows' ! k) = Executing" by simp
  from claims_only_pending [OF h assms(3)] rk assms(3) cl
  have c4: "claims ?i atts' = 0 \<longleftrightarrow> rows' ! k = rows ! k" by auto
  from rk have c5: "sc_id (rows' ! k) = ?i" by (simp add: claims_only_ids [OF h])
  have c6: "\<forall>a \<in> set atts'. returned a \<and> after_row a (rows ! k) rows \<longrightarrow>
             claims ?i atts' = 1 \<and> sc_status (rows' ! k) = Executing"
  proof (intro ballI impI)
    fix a assume a: "a \<in> set atts'" and r: "returned a \<and> after_row a (rows ! k) rows"
    from r have "on_course a ?i (sc_status (rows' ! k) = Executing)" by (intro course [OF a]) simp
    with r have "sc_status (rows' ! k) = Executing"
      by (cases "at_phase a") (simp_all add: on_course_def returned_def)
    with c3 show "claims ?i atts' = 1 \<and> sc_status (rows' ! k) = Executing" by simp
  qed
  have c7: "\<forall>env nowIso limit n. limit + 2 \<le> n \<longrightarrow>
             map outcome_of
                 (fst (run_interleaved (replicate n 0) [start_attempt env nowIso limit] rows))
               = [Some (snd (claimDueScheduled env nowIso limit rows))]
             \<and> snd (run_interleaved (replicate n 0) [start_attempt env nowIso limit] rows)
               = fst (claimDueScheduled env nowIso limit rows)"
    by (simp add: run_interleaved_single run_alone_claimDueScheduled)
  from c1 c2 c3 c4 c5 c6 c7 show ?thesis by (intro conjI)
qed

theorem claim_exactly_once_witness:
  "distinct (map sc_id racing_rows) \<and> sc_status (racing_rows ! 0) = Pending
   \<and> map at_phase racing_attempts = [Not_started, Not_started, Not_started]
   \<and> map (\<lambda>a. map sc_id (claimed_by a))
         (fst (run_interleaved racing_schedule racing_attempts racing_rows))
       = [[], [1], [2]]
   \<and> map returned (fst (run_interleaved racing_schedule racing_attempts racing_rows))
       = [True, True, True]
   \<and> after_row (fst (run_interleaved racing_schedule racing_attempts racing_rows) ! 0)
       (racing_rows ! 0) racing_rows
   \<and> claims 1 (fst (run_interleaved racing_schedule racing_attempts racing_rows)) = 1
   \<and> transitions 0 racing_schedule racing_attempts racing_rows = 1
   \<and> map sc_status (snd (run_interleaved racing_schedule racing_attempts racing_rows))
       = [Executing, Executing]
   \<and> map (map sc_id)
       (case snd (claimDueScheduled fallback_env 1000 1 racing_rows) of None \<Rightarrow> [] | Some jobs \<Rightarrow> [jobs])
       = [[1]]
   \<and> map outcome_of
         (fst (run_interleaved (replicate 3 0) [start_attempt fallback_env 1000 1] racing_rows))
       = [Some (snd (claimDueScheduled fallback_env 1000 1 racing_rows))]
   \<and> snd (run_interleaved (replicate 3 0) [start_attempt fallback_env 1000 1] racing_rows)
       = fst (claimDueScheduled fallback_env 1000 1 racing_rows)"
proof -
  let ?r = "run_interleaved racing_schedule racing_attempts racing_rows"
  have run: "?r = (fst ?r, snd ?r)" by simp
  have h1: "distinct (map sc_id racing_rows)" by code_simp
  have h2: "0 < length racing_rows" by code_simp
  have h3: "sc_status (racing_rows ! 0) = Pending" by code_simp
  have h4: "\<forall>a \<in> set racing_attempts. at_phase a = Not_started" by code_simp
  have h5: "sc_id (racing_rows ! 0) = 1" by code_simp
  have w1: "map at_phase racing_attempts = [Not_started, Not_started, Not_started]" by code_simp
  have w2: "map (\<lambda>a. map sc_id (claimed_by a)) (fst ?r) = [[], [1], [2]]" by code_simp
  have w3: "map returned (fst ?r) = [True, True, True]" by code_simp
  have w4: "after_row (fst ?r ! 0) (racing_rows ! 0) racing_rows" by code_simp
  have "0 < length (fst ?r)" by code_simp
  then have w5: "fst ?r ! 0 \<in> set (fst ?r)" by (rule nth_mem)
  have w6: "returned (fst ?r ! 0)" by code_simp
  have w7: "map sc_status (snd ?r) = [Executing, Executing]" by code_simp
  have w8: "map (map sc_id)
       (case snd (claimDueScheduled fallback_env 1000 1 racing_rows) of None \<Rightarrow> [] | Some jobs \<Rightarrow> [jobs])
       = [[1]]" by code_simp
  have w9: "(1::nat) + 2 \<le> 3" by simp
  note T = claim_exactly_once [OF h1 h2 h3 h4 run]
  from T have t1: "claims (sc_id (racing_rows ! 0)) (fst ?r)
                     = transitions 0 racing_schedule racing_attempts racing_rows"
    by (rule conjunct1 [OF conjunct2])
  from T have "\<forall>a \<in> set (fst ?r). returned a \<and> after_row a (racing_rows ! 0) racing_rows \<longrightarrow>
             claims (sc_id (racing_rows ! 0)) (fst ?r) = 1 \<and> sc_status (snd ?r ! 0) = Executing"
    by (elim conjE)
  from bspec [OF this w5] w6 w4 have t2: "claims 1 (fst ?r) = 1" unfolding h5 by simp
  from t1 t2 have t3: "transitions 0 racing_schedule racing_attempts racing_rows = 1"
    unfolding h5 by simp
  from T have "\<forall>env nowIso limit n. limit + 2 \<le> n \<longrightarrow>
             map outcome_of
                 (fst (run_interleaved (replicate n 0) [start_attempt env nowIso limit] racing_rows))
               = [Some (snd (claimDueScheduled env nowIso limit racing_rows))]
             \<and> snd (run_interleaved (replicate n 0) [start_attempt env nowIso limit] racing_rows)
               = fst (claimDueScheduled env nowIso limit racing_rows)"
    by (elim conjE)
  with w9 have t4: "map outcome_of
         (fst (run_interleaved (replicate 3 0) [start_attempt fallback_env 1000 1] racing_rows))
       = [Some (snd (claimDueScheduled fallback_env 1000 1 racing_rows))]
   \<and> snd (run_interleaved (replicate 3 0) [start_attempt fallback_env 1000 1] racing_rows)
       = fst (claimDueScheduled fallback_env 1000 1 racing_rows)"
    by blast
  from t4 have t5: "map outcome_of
         (fst (run_interleaved (replicate 3 0) [start_attempt fallback_env 1000 1] racing_rows))
       = [Some (snd (claimDueScheduled fallback_env 1000 1 racing_rows))]" by (rule conjunct1)
  from t4 have t6: "snd (run_interleaved (replicate 3 0) [start_attempt fallback_env 1000 1] racing_rows)
       = fst (claimDueScheduled fallback_env 1000 1 racing_rows)" by (rule conjunct2)
  from h1 h3 w1 w2 w3 w4 t2 t3 w7 w8 t5 t6 show ?thesis by (intro conjI)
qed

section \<open>Properties of the onboarding pipeline\<close>

lemma states_of_simps [simp]:
  "states_of [] = []"
  "states_of (es @ es') = states_of es @ states_of es'"
  "states_of (Set_status p # es) = p # states_of es"
  "states_of (Status_refused st # es) = states_of es"
  "states_of (Status_rejected st # es) = states_of es"
  "states_of (Sign_url # es) = states_of es"
  "states_of (Download_audio # es) = states_of es"
  "states_of (Speech_to_text # es) = states_of es"
  "states_of (Extract_reflection # es) = states_of es"
  "states_of (Patch_timestamp # es) = states_of es"
  "states_of (Voice_clone n # es) = states_of es"
  "states_of (Agent_creation n v pr # es) = states_of es"
  by (simp_all add: states_of_def)

lemma status_requests_simps [simp]:
  "status_requests [] = []"
  "status_requests (es @ es') = status_requests es @ status_requests es'"
  "status_requests (Set_status p # es) = setup_status p # status_requests es"
  "status_requests (Status_refused st # es) = st # status_requests es"
  "status_requests (Status_rejected st # es) = st # status_requests es"
  "status_requests (Sign_url # es) = status_requests es"
  "status_requests (Download_audio # es) = status_requests es"
  "status_requests (Speech_to_text # es) = status_requests es"
  "status_requests (Extract_reflection # es) = status_requests es"
  "status_requests (Patch_timestamp # es) = status_requests es"
  "status_requests (Voice_clone n # es) = status_requests es"
  "status_requests (Agent_creation n v pr # es) = status_requests es"
  by (simp_all add: status_requests_def)

lemma request_simps [simp]:
  "prof (request e \<sigma>) = prof \<sigma>"
  "thrown (request e \<sigma>) = thrown \<sigma>"
  "log (request e \<sigma>) = log \<sigma> @ (if thrown \<sigma> then [] else [e])"
  by (simp_all add: request_def)

text \<open>What a status PATCH does to the row, to the rows written, to the statuses asked
  for and to the other events, and when it throws.\<close>

lemma update_prof:
  "prof (updateProfileStatus env st f \<sigma>)
     = (if \<not> thrown \<sigma> \<and> status_patch env st = Answered_ok
        then f ((prof \<sigma>)\<lparr>setup_status := st\<rparr>) else prof \<sigma>)"
  by (simp add: updateProfileStatus_def Let_def split: answer.splits)

lemma update_threw [simp]:
  "thrown (updateProfileStatus env st f \<sigma>) = (thrown \<sigma> \<or> status_patch env st = Request_rejects)"
  by (simp add: updateProfileStatus_def Let_def split: answer.splits)

lemma update_log:
  "log (updateProfileStatus env st f \<sigma>)
     = log \<sigma> @ (if thrown \<sigma> then []
                 else [case status_patch env st of
                         Request_rejects \<Rightarrow> Status_rejected st
                       | Answered_not_ok \<Rightarrow> Status_refused st
                       | Answered_ok \<Rightarrow> Set_status (f ((prof \<sigma>)\<lparr>setup_status := st\<rparr>))])"
  by (simp add: updateProfileStatus_def Let_def split: answer.splits)

lemma update_states:
  "states_of (log (updateProfileStatus env st f \<sigma>))
     = states_of (log \<sigma>)
       @ (if \<not> thrown \<sigma> \<and> status_patch env st = Answered_ok
          then [f ((prof \<sigma>)\<lparr>setup_status := st\<rparr>)] else [])"
  by (simp add: updateProfileStatus_def Let_def split: answer.splits)

lemma update_requests:
  assumes "\<And>q. setup_status (f q) = setup_status q"
  shows "status_requests (log (updateProfileStatus env st f \<sigma>))
           = status_requests (log \<sigma>) @ (if thrown \<sigma> then [] else [st])"
  by (simp add: updateProfileStatus_def Let_def assms split: answer.splits)

lemma update_agent_events:
  "Agent_creation n v pr \<in> set (log (updateProfileStatus env st f \<sigma>))
     \<longleftrightarrow> Agent_creation n v pr \<in> set (log \<sigma>)"
  by (simp add: updateProfileStatus_def Let_def split: answer.splits)

lemma update_voice_events:
  "Voice_clone n \<in> set (log (updateProfileStatus env st f \<sigma>)) \<longleftrightarrow> Voice_clone n \<in> set (log \<sigma>)"
  by (simp add: updateProfileStatus_def Let_def split: answer.splits)

lemma update_grows: "\<exists>es. log (updateProfileStatus env st f \<sigma>) = log \<sigma> @ es"
  by (simp add: update_log)

text \<open>The two ways agent creation ends, the two ways voice cloning ends before it, and
  the three ways a run goes after its first PATCH.\<close>

lemma create_agent_cases:
  assumes "create_agent env name v pr tr ex \<sigma> = (res, \<sigma>')"
  shows "(\<sigma>' = updateProfileStatus env Error id (request (Agent_creation name v pr) \<sigma>)
          \<and> (\<forall>a1 a2. agent_create env = Agent_json a1 a2 \<longrightarrow> \<not> truthy_str (or_str a1 a2)))
       \<or> (\<exists>a. \<sigma>' = updateProfileStatus env Ready (\<lambda>p. p\<lparr>eleven_agent_id := Some a\<rparr>)
                      (request (Agent_creation name v pr) \<sigma>)
              \<and> res = Onboarded v a (if tr \<noteq> [] then Some (take 180 tr) else None) ex)"
proof (cases "agent_create env")
  case (Agent_rejected t)
  with assms show ?thesis by (simp add: create_agent_def Let_def)
next
  case (Agent_json a1 a2)
  show ?thesis
  proof (cases "truthy_str (or_str a1 a2)")
    case False
    with Agent_json assms show ?thesis by (simp add: create_agent_def Let_def)
  next
    case True
    then obtain a where a: "or_str a1 a2 = Some a"
      by (cases "or_str a1 a2") (simp_all add: truthy_str_def)
    with True Agent_json assms
    have "\<sigma>' = updateProfileStatus env Ready (\<lambda>p. p\<lparr>eleven_agent_id := Some a\<rparr>)
                      (request (Agent_creation name v pr) \<sigma>)
          \<and> res = Onboarded v a (if tr \<noteq> [] then Some (take 180 tr) else None) ex"
      by (simp add: create_agent_def Let_def)
    then show ?thesis by (intro disjI2 exI)
  qed
qed

lemma clone_voice_cases:
  assumes "clone_voice env name pr tr ex \<sigma> = (res, \<sigma>')"
  shows "(\<sigma>' = updateProfileStatus env Error id
                 (request (Voice_clone name) (updateProfileStatus env Voice_created id \<sigma>))
          \<and> (\<forall>v. voice_add env = Voice_json (Some v) \<longrightarrow> v = []))
       \<or> (\<exists>v. voice_add env = Voice_json (Some v) \<and> v \<noteq> []
              \<and> create_agent env name v pr tr ex
                  (updateProfileStatus env Agent_created (\<lambda>p. p\<lparr>eleven_voice_id := Some v\<rparr>)
                     (request (Voice_clone name) (updateProfileStatus env Voice_created id \<sigma>)))
                = (res, \<sigma>'))"
proof (cases "voice_add env")
  case (Voice_rejected t)
  with assms show ?thesis by (simp add: clone_voice_def Let_def)
next
  case (Voice_json vid)
  show ?thesis
  proof (cases "truthy_str vid")
    case False
    with Voice_json assms show ?thesis
      by (auto simp: clone_voice_def Let_def truthy_str_def)
  next
    case True
    then obtain v where v: "vid = Some v" "v \<noteq> []"
      by (cases vid) (simp_all add: truthy_str_def)
    with True Voice_json assms
    have "voice_add env = Voice_json (Some v) \<and> v \<noteq> []
              \<and> create_agent env name v pr tr ex
                  (updateProfileStatus env Agent_created (\<lambda>p. p\<lparr>eleven_voice_id := Some v\<rparr>)
                     (request (Voice_clone name) (updateProfileStatus env Voice_created id \<sigma>)))
                = (res, \<sigma>')"
      by (simp add: clone_voice_def Let_def)
    then show ?thesis by (intro disjI2 exI)
  qed
qed

lemma transcribe_and_extract_log:
  assumes "transcribe_and_extract env h \<sigma> = ((tr, ex), \<sigma>')"
  shows "prof \<sigma>' = prof \<sigma>
       \<and> (\<exists>es. log \<sigma>' = log \<sigma> @ es \<and> states_of es = [] \<and> status_requests es = []
               \<and> (\<forall>n v pr. Agent_creation n v pr \<notin> set es))
       \<and> (stt env = None \<or> openai env = None \<or> (h \<and> timestamp_patch_rejects env) \<longrightarrow> ex = None)
       \<and> thrown \<sigma>' = thrown \<sigma>"
  using assms
  by (auto simp: transcribe_and_extract_def Let_def split: option.splits if_splits)

lemma run_pipeline_cases:
  assumes "run_pipeline env u b \<sigma> = (res, \<sigma>')"
  shows "(\<not> signed_ok env
          \<and> \<sigma>' = updateProfileStatus env Error id
                   (request Sign_url (updateProfileStatus env Voice_uploaded id \<sigma>)))
       \<or> (signed_ok env \<and> \<not> audio_ok env
          \<and> \<sigma>' = updateProfileStatus env Error id
                   (request Download_audio
                      (request Sign_url (updateProfileStatus env Voice_uploaded id \<sigma>))))
       \<or> (signed_ok env \<and> audio_ok env
          \<and> (\<exists>tr ex s3.
                transcribe_and_extract env (truthy_str (timestampId b))
                   (request Download_audio
                      (request Sign_url (updateProfileStatus env Voice_uploaded id \<sigma>)))
                  = ((tr, ex), s3)
              \<and> clone_voice env
                   (case (if truthy_str (agentName b) then agentName b else None) of
                      Some n \<Rightarrow> n | None \<Rightarrow> ''FutureSelf-'' @ take 8 u)
                   (buildSystemPrompt
                      (case (if truthy_str (timestampId b) then ob_tsMeta env else None) of
                         None \<Rightarrow> None | Some m \<Rightarrow> fst m)
                      (case (if truthy_str (timestampId b) then ob_tsMeta env else None) of
                         None \<Rightarrow> None | Some m \<Rightarrow> snd m) ex)
                   tr ex s3 = (res, \<sigma>')))"
proof (cases "signed_ok env")
  case False
  with assms show ?thesis by (simp add: run_pipeline_def Let_def)
next
  case signed: True
  show ?thesis
  proof (cases "audio_ok env")
    case False
    with signed assms show ?thesis by (simp add: run_pipeline_def Let_def)
  next
    case True
    let ?s2 = "request Download_audio
                 (request Sign_url (updateProfileStatus env Voice_uploaded id \<sigma>))"
    obtain tr ex s3 where t:
      "transcribe_and_extract env (truthy_str (timestampId b)) ?s2 = ((tr, ex), s3)"
      by (cases "transcribe_and_extract env (truthy_str (timestampId b)) ?s2") auto
    with signed True assms
    have "transcribe_and_extract env (truthy_str (timestampId b)) ?s2 = ((tr, ex), s3)
        \<and> clone_voice env
             (case (if truthy_str (agentName b) then agentName b else None) of
                Some n \<Rightarrow> n | None \<Rightarrow> ''FutureSelf-'' @ take 8 u)
             (buildSystemPrompt
                (case (if truthy_str (timestampId b) then ob_tsMeta env else None) of
                   None \<Rightarrow> None | Some m \<Rightarrow> fst m)
                (case (if truthy_str (timestampId b) then ob_tsMeta env else None) of
                   None \<Rightarrow> None | Some m \<Rightarrow> snd m) ex)
             tr ex s3 = (res, \<sigma>')"
      by (simp add: run_pipeline_def Let_def)
    then have "\<exists>tr ex s3.
          transcribe_and_extract env (truthy_str (timestampId b)) ?s2 = ((tr, ex), s3)
        \<and> clone_voice env
             (case (if truthy_str (agentName b) then agentName b else None) of
                Some n \<Rightarrow> n | None \<Rightarrow> ''FutureSelf-'' @ take 8 u)
             (buildSystemPrompt
                (case (if truthy_str (timestampId b) then ob_tsMeta env else None) of
                   None \<Rightarrow> None | Some m \<Rightarrow> fst m)
                (case (if truthy_str (timestampId b) then ob_tsMeta env else None) of
                   None \<Rightarrow> None | Some m \<Rightarrow> snd m) ex)
             tr ex s3 = (res, \<sigma>')"
      by (intro exI)
    with signed True show ?thesis by (intro disjI2 conjI)
  qed
qed

text \<open>A request that passes the checks on a profile that is not yet ready is a run of
  the pipeline from the stored row.\<close>

lemma processOnboarding_run:
  assumes "processOnboarding env (Some p) = (res, es, stored)"
    and "valid_request env" and "already_ready p = None"
  shows "\<exists>u b r \<sigma>'. ob_userId env = Some u \<and> ob_body env = Some b
        \<and> run_pipeline env u b \<lparr>prof = p, log = [], thrown = False\<rparr> = (r, \<sigma>')
        \<and> res = (if thrown \<sigma>' then Ob_threw else r)
        \<and> es = log \<sigma>' \<and> stored = Some (prof \<sigma>')"
proof -
  obtain u b where ub: "ob_userId env = Some u" "ob_body env = Some b"
    using assms(2) by (auto simp: valid_request_def truthy_str_def split: option.splits)
  obtain r \<sigma>' where run: "run_pipeline env u b \<lparr>prof = p, log = [], thrown = False\<rparr> = (r, \<sigma>')"
    by (cases "run_pipeline env u b \<lparr>prof = p, log = [], thrown = False\<rparr>")
  with assms ub have e: "res = (if thrown \<sigma>' then Ob_threw else r)" "es = log \<sigma>'"
    "stored = Some (prof \<sigma>')"
    by (auto simp: processOnboarding_def valid_request_def split: option.splits if_splits)
  from ub run e have "ob_userId env = Some u \<and> ob_body env = Some b
        \<and> run_pipeline env u b \<lparr>prof = p, log = [], thrown = False\<rparr> = (r, \<sigma>')
        \<and> res = (if thrown \<sigma>' then Ob_threw else r)
        \<and> es = log \<sigma>' \<and> stored = Some (prof \<sigma>')" by simp
  then show ?thesis by (intro exI)
qed

lemma processOnboarding_idle:
  assumes "processOnboarding env (Some p) = (res, es, stored)"
    and "\<not> (valid_request env \<and> already_ready p = None)"
  shows "es = [] \<and> stored = Some p"
  using assms
  by (auto simp: processOnboarding_def valid_request_def split: option.splits if_splits)

subsection \<open>The log only grows\<close>

lemma create_agent_grows:
  assumes "create_agent env name v pr tr ex \<sigma> = (res, \<sigma>')"
  shows "\<exists>es. log \<sigma>' = log \<sigma> @ es"
  using create_agent_cases [OF assms]
  by (elim disjE exE conjE) (simp_all add: update_log)

lemma clone_voice_grows:
  assumes "clone_voice env name pr tr ex \<sigma> = (res, \<sigma>')"
  shows "\<exists>es. log \<sigma>' = log \<sigma> @ es"
  using clone_voice_cases [OF assms]
proof (elim disjE exE conjE)
  assume "\<sigma>' = updateProfileStatus env Error id
                 (request (Voice_clone name) (updateProfileStatus env Voice_created id \<sigma>))"
  then show ?thesis by (simp add: update_log)
next
  fix v
  assume "create_agent env name v pr tr ex
                  (updateProfileStatus env Agent_created (\<lambda>p. p\<lparr>eleven_voice_id := Some v\<rparr>)
                     (request (Voice_clone name) (updateProfileStatus env Voice_created id \<sigma>)))
                = (res, \<sigma>')"
  from create_agent_grows [OF this] obtain es where
    "log \<sigma>' = log (updateProfileStatus env Agent_created (\<lambda>p. p\<lparr>eleven_voice_id := Some v\<rparr>)
                     (request (Voice_clone name) (updateProfileStatus env Voice_created id \<sigma>))) @ es" ..
  then show ?thesis by (simp add: update_log)
qed

lemma run_pipeline_first:
  assumes "run_pipeline env u b \<sigma> = (res, \<sigma>')"
  shows "\<exists>es. log \<sigma>' = log (updateProfileStatus env Voice_uploaded id \<sigma>) @ es"
  using run_pipeline_cases [OF assms]
proof (elim disjE exE conjE)
  fix tr ex s3
  let ?s2 = "request Download_audio
               (request Sign_url (updateProfileStatus env Voice_uploaded id \<sigma>))"
  assume t: "transcribe_and_extract env (truthy_str (timestampId b)) ?s2 = ((tr, ex), s3)"
    and c: "clone_voice env
             (case (if truthy_str (agentName b) then agentName b else None) of
                Some n \<Rightarrow> n | None \<Rightarrow> ''FutureSelf-'' @ take 8 u)
             (buildSystemPrompt
                (case (if truthy_str (timestampId b) then ob_tsMeta env else None) of
                   None \<Rightarrow> None | Some m \<Rightarrow> fst m)
                (case (if truthy_str (timestampId b) then ob_tsMeta env else None) of
                   None \<Rightarrow> None | Some m \<Rightarrow> snd m) ex)
             tr ex s3 = (res, \<sigma>')"
  from transcribe_and_extract_log [OF t] obtain es3 where "log s3 = log ?s2 @ es3" by blast
  moreover from clone_voice_grows [OF c] obtain es4 where "log \<sigma>' = log s3 @ es4" ..
  ultimately show ?thesis by simp
qed (simp_all add: update_log)

subsection \<open>The statuses written only move forward\<close>

lemma forward_only_snoc:
  assumes "forward_only xs" and "\<forall>x \<in> set xs. x \<noteq> Error \<and> setup_rank x < setup_rank st"
  shows "forward_only (xs @ [st])"
  using assms by (induction xs rule: forward_only.induct) simp_all

lemma update_forward:
  assumes "forward_only (map setup_status (states_of (log \<sigma>)))"
    and "\<forall>x \<in> set (map setup_status (states_of (log \<sigma>))). x \<noteq> Error \<and> setup_rank x < setup_rank st"
    and "\<And>q. setup_status (f q) = setup_status q"
  shows "forward_only (map setup_status (states_of (log (updateProfileStatus env st f \<sigma>))))"
proof (cases "\<not> thrown \<sigma> \<and> status_patch env st = Answered_ok")
  case True
  have "forward_only (map setup_status (states_of (log \<sigma>)) @ [st])"
    using assms(1,2) by (rule forward_only_snoc)
  with True show ?thesis by (simp add: update_states assms(3))
next
  case False
  with assms(1) show ?thesis by (auto simp: update_states)
qed

lemma update_written:
  assumes "set (map setup_status (states_of (log \<sigma>))) \<subseteq> A" and "st \<in> A"
    and "\<And>q. setup_status (f q) = setup_status q"
  shows "set (map setup_status (states_of (log (updateProfileStatus env st f \<sigma>)))) \<subseteq> A"
  using assms(1,2) by (auto simp: update_states assms(3))

lemma create_agent_forward:
  assumes run: "create_agent env name v pr tr ex \<sigma> = (res, \<sigma>')"
    and f: "forward_only (map setup_status (states_of (log \<sigma>)))"
    and w: "set (map setup_status (states_of (log \<sigma>))) \<subseteq> {Voice_uploaded, Voice_created, Agent_created}"
  shows "forward_only (map setup_status (states_of (log \<sigma>')))"
proof -
  let ?s = "request (Agent_creation name v pr) \<sigma>"
  have f': "forward_only (map setup_status (states_of (log ?s)))" using f by simp
  have w': "set (map setup_status (states_of (log ?s)))
              \<subseteq> {Voice_uploaded, Voice_created, Agent_created}" using w by simp
  from w' have e: "\<forall>x \<in> set (map setup_status (states_of (log ?s))).
                      x \<noteq> Error \<and> setup_rank x < setup_rank Error" by auto
  from w' have r: "\<forall>x \<in> set (map setup_status (states_of (log ?s))).
                      x \<noteq> Error \<and> setup_rank x < setup_rank Ready" by auto
  from create_agent_cases [OF run] show ?thesis
  proof (elim disjE exE conjE)
    assume "\<sigma>' = updateProfileStatus env Error id ?s"
    then show ?thesis using update_forward [OF f' e, of id env] by simp
  next
    fix a
    assume "\<sigma>' = updateProfileStatus env Ready (\<lambda>p. p\<lparr>eleven_agent_id := Some a\<rparr>) ?s"
    then show ?thesis
      using update_forward [OF f' r, of "\<lambda>p. p\<lparr>eleven_agent_id := Some a\<rparr>" env] by simp
  qed
qed

lemma clone_voice_forward:
  assumes run: "clone_voice env name pr tr ex \<sigma> = (res, \<sigma>')"
    and f: "forward_only (map setup_status (states_of (log \<sigma>)))"
    and w: "set (map setup_status (states_of (log \<sigma>))) \<subseteq> {Voice_uploaded}"
  shows "forward_only (map setup_status (states_of (log \<sigma>')))"
proof -
  let ?s1 = "updateProfileStatus env Voice_created id \<sigma>"
  let ?s2 = "request (Voice_clone name) ?s1"
  from w have e1: "\<forall>x \<in> set (map setup_status (states_of (log \<sigma>))).
                      x \<noteq> Error \<and> setup_rank x < setup_rank Voice_created" by auto
  have f1: "forward_only (map setup_status (states_of (log ?s1)))"
    using update_forward [OF f e1, of id env] by simp
  have w1: "set (map setup_status (states_of (log ?s1))) \<subseteq> {Voice_uploaded, Voice_created}"
    by (rule update_written) (use w in auto)
  have f2: "forward_only (map setup_status (states_of (log ?s2)))" using f1 by simp
  have w2: "set (map setup_status (states_of (log ?s2))) \<subseteq> {Voice_uploaded, Voice_created}"
    using w1 by simp
  from clone_voice_cases [OF run] show ?thesis
  proof (elim disjE exE conjE)
    assume s: "\<sigma>' = updateProfileStatus env Error id ?s2"
    from w2 have "\<forall>x \<in> set (map setup_status (states_of (log ?s2))).
                      x \<noteq> Error \<and> setup_rank x < setup_rank Error" by auto
    from update_forward [OF f2 this, of id env] s show ?thesis by simp
  next
    fix v
    let ?s3 = "updateProfileStatus env Agent_created (\<lambda>p. p\<lparr>eleven_voice_id := Some v\<rparr>) ?s2"
    assume c: "create_agent env name v pr tr ex ?s3 = (res, \<sigma>')"
    from w2 have "\<forall>x \<in> set (map setup_status (states_of (log ?s2))).
                      x \<noteq> Error \<and> setup_rank x < setup_rank Agent_created" by auto
    from update_forward [OF f2 this, of "\<lambda>p. p\<lparr>eleven_voice_id := Some v\<rparr>" env]
    have f3: "forward_only (map setup_status (states_of (log ?s3)))" by simp
    have w3: "set (map setup_status (states_of (log ?s3)))
                \<subseteq> {Voice_uploaded, Voice_created, Agent_created}"
      by (rule update_written) (use w2 in auto)
    from c f3 w3 show ?thesis by (rule create_agent_forward)
  qed
qed

lemma run_pipeline_forward:
  assumes run: "run_pipeline env u b \<sigma> = (res, \<sigma>')" and empty: "states_of (log \<sigma>) = []"
  shows "forward_only (map setup_status (states_of (log \<sigma>')))"
proof -
  let ?s0 = "updateProfileStatus env Voice_uploaded id \<sigma>"
  let ?s1 = "request Sign_url ?s0"
  let ?s2 = "request Download_audio ?s1"
  have f0: "forward_only (map setup_status (states_of (log ?s0)))"
    using empty by (simp add: update_states)
  have w0: "set (map setup_status (states_of (log ?s0))) \<subseteq> {Voice_uploaded}"
    by (rule update_written) (simp_all add: empty)
  from w0 have e: "\<forall>x \<in> set (map setup_status (states_of (log ?s0))).
                      x \<noteq> Error \<and> setup_rank x < setup_rank Error" by auto
  from run_pipeline_cases [OF run] show ?thesis
  proof (elim disjE exE conjE)
    assume s: "\<sigma>' = updateProfileStatus env Error id ?s1"
    have "forward_only (map setup_status (states_of (log ?s1)))" using f0 by simp
    moreover have "\<forall>x \<in> set (map setup_status (states_of (log ?s1))).
                      x \<noteq> Error \<and> setup_rank x < setup_rank Error" using e by simp
    ultimately show ?thesis unfolding s by (rule update_forward) simp
  next
    assume s: "\<sigma>' = updateProfileStatus env Error id ?s2"
    have "forward_only (map setup_status (states_of (log ?s2)))" using f0 by simp
    moreover have "\<forall>x \<in> set (map setup_status (states_of (log ?s2))).
                      x \<noteq> Error \<and> setup_rank x < setup_rank Error" using e by simp
    ultimately show ?thesis unfolding s by (rule update_forward) simp
  next
    fix tr ex s3
    assume t: "transcribe_and_extract env (truthy_str (timestampId b)) ?s2 = ((tr, ex), s3)"
      and c: "clone_voice env
             (case (if truthy_str (agentName b) then agentName b else None) of
                Some n \<Rightarrow> n | None \<Rightarrow> ''FutureSelf-'' @ take 8 u)
             (buildSystemPrompt
                (case (if truthy_str (timestampId b) then ob_tsMeta env else None) of
                   None \<Rightarrow> None | Some m \<Rightarrow> fst m)
                (case (if truthy_str (timestampId b) then ob_tsMeta env else None) of
                   None \<Rightarrow> None | Some m \<Rightarrow> snd m) ex)
             tr ex s3 = (res, \<sigma>')"
    from transcribe_and_extract_log [OF t] obtain es3 where
      "log s3 = log ?s2 @ es3" "states_of es3 = []" by blast
    then have st: "states_of (log s3) = states_of (log ?s0)" by simp
    from c show ?thesis
    proof (rule clone_voice_forward)
      show "forward_only (map setup_status (states_of (log s3)))" unfolding st by (rule f0)
      show "set (map setup_status (states_of (log s3))) \<subseteq> {Voice_uploaded}"
        unfolding st by (rule w0)
    qed
  qed
qed

lemma onboarding_run_moves_forward:
  assumes "processOnboarding env (Some p) = (res, es, stored)"
  shows "forward_only (map setup_status (states_of es))"
proof (cases "valid_request env \<and> already_ready p = None")
  case False
  with processOnboarding_idle [OF assms] show ?thesis by simp
next
  case True
  then have v: "valid_request env" and n: "already_ready p = None" by simp_all
  from processOnboarding_run [OF assms v n] obtain u b r \<sigma>' where
    run: "run_pipeline env u b \<lparr>prof = p, log = [], thrown = False\<rparr> = (r, \<sigma>')"
    and es: "es = log \<sigma>'"
    by (elim exE conjE)
  from run have "forward_only (map setup_status (states_of (log \<sigma>')))"
    by (rule run_pipeline_forward) simp
  with es show ?thesis by simp
qed

lemma onboarding_first_write:
  assumes "processOnboarding env (Some p) = (res, es, stored)"
    and "valid_request env" and "already_ready p = None"
  shows "take 1 (status_requests es) = [Voice_uploaded]
       \<and> (status_patch env Voice_uploaded = Answered_ok \<longrightarrow>
            states_of es \<noteq> [] \<and> hd (states_of es) = p\<lparr>setup_status := Voice_uploaded\<rparr>)"
proof -
  from processOnboarding_run [OF assms] obtain u b r \<sigma>' where
    run: "run_pipeline env u b \<lparr>prof = p, log = [], thrown = False\<rparr> = (r, \<sigma>')"
    and es: "es = log \<sigma>'"
    by (elim exE conjE)
  from run_pipeline_first [OF run] obtain es' where
    "log \<sigma>' = log (updateProfileStatus env Voice_uploaded id \<lparr>prof = p, log = [], thrown = False\<rparr>)
               @ es'" ..
  with es have e: "es = (case status_patch env Voice_uploaded of
                           Request_rejects \<Rightarrow> Status_rejected Voice_uploaded
                         | Answered_not_ok \<Rightarrow> Status_refused Voice_uploaded
                         | Answered_ok \<Rightarrow> Set_status (p\<lparr>setup_status := Voice_uploaded\<rparr>)) # es'"
    by (cases "status_patch env Voice_uploaded") (simp_all add: update_log)
  show ?thesis unfolding e by (cases "status_patch env Voice_uploaded") simp_all
qed

subsection \<open>A ready row has its ids\<close>

lemma update_invariant:
  assumes "\<forall>q \<in> set (states_of (log \<sigma>)). ready_has_ids q" and "ready_has_ids (prof \<sigma>)"
    and "\<not> thrown \<sigma> \<and> status_patch env st = Answered_ok
           \<longrightarrow> ready_has_ids (f ((prof \<sigma>)\<lparr>setup_status := st\<rparr>))"
  shows "(\<forall>q \<in> set (states_of (log (updateProfileStatus env st f \<sigma>))). ready_has_ids q)
       \<and> ready_has_ids (prof (updateProfileStatus env st f \<sigma>))"
  using assms by (simp add: update_states update_prof)

lemma create_agent_invariant:
  assumes run: "create_agent env name v pr tr ex \<sigma> = (res, \<sigma>')"
    and i: "\<forall>q \<in> set (states_of (log \<sigma>)). ready_has_ids q" "ready_has_ids (prof \<sigma>)"
    and voice: "\<not> thrown \<sigma> \<and> status_patch env Ready = Answered_ok
                  \<longrightarrow> eleven_voice_id (prof \<sigma>) \<noteq> None"
  shows "(\<forall>q \<in> set (states_of (log \<sigma>')). ready_has_ids q) \<and> ready_has_ids (prof \<sigma>')"
proof -
  let ?s = "request (Agent_creation name v pr) \<sigma>"
  have i': "\<forall>q \<in> set (states_of (log ?s)). ready_has_ids q" "ready_has_ids (prof ?s)"
    using i by simp_all
  from create_agent_cases [OF run] show ?thesis
  proof (elim disjE exE conjE)
    assume s: "\<sigma>' = updateProfileStatus env Error id ?s"
    show ?thesis unfolding s by (rule update_invariant [OF i']) (simp add: ready_has_ids_def)
  next
    fix a
    assume s: "\<sigma>' = updateProfileStatus env Ready (\<lambda>p. p\<lparr>eleven_agent_id := Some a\<rparr>) ?s"
    show ?thesis unfolding s
      by (rule update_invariant [OF i']) (use voice in \<open>simp add: ready_has_ids_def\<close>)
  qed
qed

lemma clone_voice_invariant:
  assumes run: "clone_voice env name pr tr ex \<sigma> = (res, \<sigma>')"
    and i: "\<forall>q \<in> set (states_of (log \<sigma>)). ready_has_ids q" "ready_has_ids (prof \<sigma>)"
    and order: "status_patch env Ready = Answered_ok
                  \<longrightarrow> status_patch env Agent_created \<noteq> Answered_not_ok"
  shows "(\<forall>q \<in> set (states_of (log \<sigma>')). ready_has_ids q) \<and> ready_has_ids (prof \<sigma>')"
proof -
  let ?s1 = "updateProfileStatus env Voice_created id \<sigma>"
  let ?s2 = "request (Voice_clone name) ?s1"
  have "(\<forall>q \<in> set (states_of (log ?s1)). ready_has_ids q) \<and> ready_has_ids (prof ?s1)"
    by (rule update_invariant [OF i]) (simp add: ready_has_ids_def)
  then have i2: "\<forall>q \<in> set (states_of (log ?s2)). ready_has_ids q" "ready_has_ids (prof ?s2)"
    by simp_all
  from clone_voice_cases [OF run] show ?thesis
  proof (elim disjE exE conjE)
    assume s: "\<sigma>' = updateProfileStatus env Error id ?s2"
    show ?thesis unfolding s by (rule update_invariant [OF i2]) (simp add: ready_has_ids_def)
  next
    fix v
    let ?s3 = "updateProfileStatus env Agent_created (\<lambda>p. p\<lparr>eleven_voice_id := Some v\<rparr>) ?s2"
    assume c: "create_agent env name v pr tr ex ?s3 = (res, \<sigma>')"
    have "(\<forall>q \<in> set (states_of (log ?s3)). ready_has_ids q) \<and> ready_has_ids (prof ?s3)"
      by (rule update_invariant [OF i2]) (simp add: ready_has_ids_def)
    then have i3: "\<forall>q \<in> set (states_of (log ?s3)). ready_has_ids q" "ready_has_ids (prof ?s3)"
      by simp_all
    have "\<not> thrown ?s3 \<and> status_patch env Ready = Answered_ok
            \<longrightarrow> eleven_voice_id (prof ?s3) \<noteq> None"
    proof
      assume a: "\<not> thrown ?s3 \<and> status_patch env Ready = Answered_ok"
      then have n2: "\<not> thrown ?s2" and nr: "status_patch env Agent_created \<noteq> Request_rejects"
        by simp_all
      from a order have "status_patch env Agent_created \<noteq> Answered_not_ok" by simp
      with nr have "status_patch env Agent_created = Answered_ok"
        by (cases "status_patch env Agent_created") simp_all
      with n2 show "eleven_voice_id (prof ?s3) \<noteq> None" by (simp add: update_prof)
    qed
    with c i3 show ?thesis by (rule create_agent_invariant)
  qed
qed

lemma run_pipeline_invariant:
  assumes run: "run_pipeline env u b \<sigma> = (res, \<sigma>')"
    and i: "\<forall>q \<in> set (states_of (log \<sigma>)). ready_has_ids q" "ready_has_ids (prof \<sigma>)"
    and order: "status_patch env Ready = Answered_ok
                  \<longrightarrow> status_patch env Agent_created \<noteq> Answered_not_ok"
  shows "(\<forall>q \<in> set (states_of (log \<sigma>')). ready_has_ids q) \<and> ready_has_ids (prof \<sigma>')"
proof -
  let ?s0 = "updateProfileStatus env Voice_uploaded id \<sigma>"
  let ?s1 = "request Sign_url ?s0"
  let ?s2 = "request Download_audio ?s1"
  have i0: "(\<forall>q \<in> set (states_of (log ?s0)). ready_has_ids q) \<and> ready_has_ids (prof ?s0)"
    by (rule update_invariant [OF i]) (simp add: ready_has_ids_def)
  then have i1: "\<forall>q \<in> set (states_of (log ?s1)). ready_has_ids q" "ready_has_ids (prof ?s1)"
    and i2: "\<forall>q \<in> set (states_of (log ?s2)). ready_has_ids q" "ready_has_ids (prof ?s2)"
    by simp_all
  from run_pipeline_cases [OF run] show ?thesis
  proof (elim disjE exE conjE)
    assume s: "\<sigma>' = updateProfileStatus env Error id ?s1"
    show ?thesis unfolding s by (rule update_invariant [OF i1]) (simp add: ready_has_ids_def)
  next
    assume s: "\<sigma>' = updateProfileStatus env Error id ?s2"
    show ?thesis unfolding s by (rule update_invariant [OF i2]) (simp add: ready_has_ids_def)
  next
    fix tr ex s3
    assume t: "transcribe_and_extract env (truthy_str (timestampId b)) ?s2 = ((tr, ex), s3)"
      and c: "clone_voice env
             (case (if truthy_str (agentName b) then agentName b else None) of
                Some n \<Rightarrow> n | None \<Rightarrow> ''FutureSelf-'' @ take 8 u)
             (buildSystemPrompt
                (case (if truthy_str (timestampId b) then ob_tsMeta env else None) of
                   None \<Rightarrow> None | Some m \<Rightarrow> fst m)
                (case (if truthy_str (timestampId b) then ob_tsMeta env else None) of
                   None \<Rightarrow> None | Some m \<Rightarrow> snd m) ex)
             tr ex s3 = (res, \<sigma>')"
    from transcribe_and_extract_log [OF t] obtain es3 where
      "prof s3 = prof ?s2" "log s3 = log ?s2 @ es3" "states_of es3 = []" by blast
    with i2 have i3: "\<forall>q \<in> set (states_of (log s3)). ready_has_ids q" "ready_has_ids (prof s3)"
      by simp_all
    from c i3 order show ?thesis by (rule clone_voice_invariant)
  qed
qed

text \<open>The states an operation writes keep the invariant.\<close>

lemma op_states_invariant:
  assumes "ready_has_ids p" and "accepts_voice_before_ready x"
  shows "(\<forall>q \<in> set (fst (op_states x p)). ready_has_ids q) \<and> ready_has_ids (snd (op_states x p))"
proof (cases x)
  case (Process_onboarding env)
  obtain res es stored where r: "processOnboarding env (Some p) = (res, es, stored)"
    by (cases "processOnboarding env (Some p)") auto
  show ?thesis
  proof (cases "valid_request env \<and> already_ready p = None")
    case False
    from processOnboarding_idle [OF r False] r Process_onboarding assms(1) show ?thesis by simp
  next
    case True
    then have v: "valid_request env" and n: "already_ready p = None" by simp_all
    from processOnboarding_run [OF r v n] obtain u b r0 \<sigma>' where
      run: "run_pipeline env u b \<lparr>prof = p, log = [], thrown = False\<rparr> = (r0, \<sigma>')"
      and es: "es = log \<sigma>'" "stored = Some (prof \<sigma>')"
      by (elim exE conjE)
    from assms(2) Process_onboarding
    have order: "status_patch env Ready = Answered_ok
                   \<longrightarrow> status_patch env Agent_created \<noteq> Answered_not_ok" by simp
    have "(\<forall>q \<in> set (states_of (log \<sigma>')). ready_has_ids q) \<and> ready_has_ids (prof \<sigma>')"
      by (rule run_pipeline_invariant [OF run _ _ order]) (simp_all add: assms(1))
    with r es Process_onboarding show ?thesis by simp
  qed
next
  case (Enqueue env)
  with assms(1) show ?thesis by (simp add: enqueue_profile_def ready_has_ids_def)
next
  case (Bootstrap phone ok)
  with assms(1) show ?thesis by (simp add: bootstrap_profile_def ready_has_ids_def)
qed

subsection \<open>A run in which transcription or extraction fails\<close>

lemma generic_prompt:
  "buildSystemPrompt t d None = join [CHR 0x0A] (filter Boolean framing @ [snapshot_line t d])"
  by (simp add: buildSystemPrompt_def prompt_lines_def Boolean_def snapshot_line_def)

lemma generic_prompt_no_goals:
  "\<forall>l \<in> set (filter Boolean framing @ [snapshot_line t d]).
      \<not> prefix ''Goals: '' l \<and> \<not> prefix ''Fears: '' l"
  by (simp add: framing_def Boolean_def snapshot_line_def)

lemma create_agent_prompt:
  assumes "create_agent env name v pr tr ex \<sigma> = (res, \<sigma>')"
    and "Agent_creation n v' pr' \<in> set (log \<sigma>')"
  shows "Agent_creation n v' pr' \<in> set (log \<sigma>) \<or> pr' = pr"
  using create_agent_cases [OF assms(1)] assms(2)
  by (elim disjE exE conjE) (auto simp: update_agent_events split: if_splits)

lemma clone_voice_prompt:
  assumes run: "clone_voice env name pr tr ex \<sigma> = (res, \<sigma>')"
    and m: "Agent_creation n v' pr' \<in> set (log \<sigma>')"
  shows "Agent_creation n v' pr' \<in> set (log \<sigma>) \<or> pr' = pr"
  using clone_voice_cases [OF run]
proof (elim disjE exE conjE)
  assume "\<sigma>' = updateProfileStatus env Error id
                 (request (Voice_clone name) (updateProfileStatus env Voice_created id \<sigma>))"
  with m show ?thesis by (auto simp: update_agent_events split: if_splits)
next
  fix v
  assume "create_agent env name v pr tr ex
                  (updateProfileStatus env Agent_created (\<lambda>p. p\<lparr>eleven_voice_id := Some v\<rparr>)
                     (request (Voice_clone name) (updateProfileStatus env Voice_created id \<sigma>)))
                = (res, \<sigma>')"
  from create_agent_prompt [OF this m] show ?thesis
    by (auto simp: update_agent_events split: if_splits)
qed

lemma clone_voice_requests:
  assumes run: "clone_voice env name pr tr ex \<sigma> = (res, \<sigma>')" and nt: "\<not> thrown \<sigma>"
  shows "(\<exists>xs. status_requests (log \<sigma>') = status_requests (log \<sigma>) @ Voice_created # xs)
       \<and> (status_patch env Voice_created \<noteq> Request_rejects \<longrightarrow> Voice_clone name \<in> set (log \<sigma>'))"
proof -
  let ?s1 = "updateProfileStatus env Voice_created id \<sigma>"
  let ?s2 = "request (Voice_clone name) ?s1"
  have "\<exists>es. log \<sigma>' = log ?s2 @ es"
    using clone_voice_cases [OF run]
  proof (elim disjE exE conjE)
    assume "\<sigma>' = updateProfileStatus env Error id ?s2"
    then show ?thesis by (simp only: update_grows)
  next
    fix v
    let ?s3 = "updateProfileStatus env Agent_created (\<lambda>p. p\<lparr>eleven_voice_id := Some v\<rparr>) ?s2"
    assume c: "create_agent env name v pr tr ex ?s3 = (res, \<sigma>')"
    from create_agent_grows [OF c] obtain es where g: "log \<sigma>' = log ?s3 @ es" ..
    from update_grows [of env Agent_created "\<lambda>p. p\<lparr>eleven_voice_id := Some v\<rparr>" ?s2]
    obtain es0 where "log ?s3 = log ?s2 @ es0" ..
    with g have "log \<sigma>' = log ?s2 @ (es0 @ es)" by simp
    then show ?thesis by (rule exI)
  qed
  then obtain es where e: "log \<sigma>' = log ?s2 @ es" ..
  have r: "status_requests (log ?s2) = status_requests (log \<sigma>) @ [Voice_created]"
    using nt by (simp add: update_requests)
  have "status_requests (log \<sigma>') = status_requests (log \<sigma>) @ Voice_created # status_requests es"
    unfolding e by (simp only: status_requests_simps r append_assoc append_Cons append_Nil)
  then have A: "\<exists>xs. status_requests (log \<sigma>') = status_requests (log \<sigma>) @ Voice_created # xs"
    by (rule exI)
  have B: "status_patch env Voice_created \<noteq> Request_rejects \<longrightarrow> Voice_clone name \<in> set (log \<sigma>')"
  proof
    assume "status_patch env Voice_created \<noteq> Request_rejects"
    with nt have "\<not> thrown ?s1" by simp
    then have m: "Voice_clone name \<in> set (log ?s2)" by simp
    have "set (log ?s2) \<subseteq> set (log \<sigma>')" unfolding e by (simp only: set_append Un_upper1)
    with m show "Voice_clone name \<in> set (log \<sigma>')" by (rule subsetD [rotated])
  qed
  from A B show ?thesis by (rule conjI)
qed

text \<open>A run that gets past the download: what it asks of the provider and of the store
  whatever transcription and extraction give.\<close>

lemma run_continues:
  assumes "processOnboarding env (Some p) = (res, es, stored)"
    and "valid_request env" and "already_ready p = None"
    and "signed_ok env" and "audio_ok env" and "ob_body env = Some b"
  shows "(status_patch env Voice_uploaded \<noteq> Request_rejects \<longrightarrow>
            take 2 (status_requests es) = [Voice_uploaded, Voice_created]
            \<and> (status_patch env Voice_created \<noteq> Request_rejects \<longrightarrow> (\<exists>n. Voice_clone n \<in> set es)))
       \<and> (stt env = None \<or> openai env = None
            \<or> (truthy_str (timestampId b) \<and> timestamp_patch_rejects env) \<longrightarrow>
            (\<forall>n v pr. Agent_creation n v pr \<in> set es \<longrightarrow>
               pr = buildSystemPrompt
                      (case (if truthy_str (timestampId b) then ob_tsMeta env else None) of
                         None \<Rightarrow> None | Some m \<Rightarrow> fst m)
                      (case (if truthy_str (timestampId b) then ob_tsMeta env else None) of
                         None \<Rightarrow> None | Some m \<Rightarrow> snd m) None))"
proof -
  let ?s0 = "updateProfileStatus env Voice_uploaded id \<lparr>prof = p, log = [], thrown = False\<rparr>"
  let ?s2 = "request Download_audio (request Sign_url ?s0)"
  from processOnboarding_run [OF assms(1,2,3)] assms(6) obtain u r \<sigma>' where
    run: "run_pipeline env u b \<lparr>prof = p, log = [], thrown = False\<rparr> = (r, \<sigma>')"
    and es: "es = log \<sigma>'"
    by (elim exE conjE) simp
  from run_pipeline_cases [OF run] assms(4,5) obtain tr ex s3 where
    t: "transcribe_and_extract env (truthy_str (timestampId b)) ?s2 = ((tr, ex), s3)"
    and c: "clone_voice env
             (case (if truthy_str (agentName b) then agentName b else None) of
                Some n \<Rightarrow> n | None \<Rightarrow> ''FutureSelf-'' @ take 8 u)
             (buildSystemPrompt
                (case (if truthy_str (timestampId b) then ob_tsMeta env else None) of
                   None \<Rightarrow> None | Some m \<Rightarrow> fst m)
                (case (if truthy_str (timestampId b) then ob_tsMeta env else None) of
                   None \<Rightarrow> None | Some m \<Rightarrow> snd m) ex)
             tr ex s3 = (r, \<sigma>')"
    by (elim disjE exE conjE) simp_all
  from transcribe_and_extract_log [OF t] obtain es3 where e3:
    "log s3 = log ?s2 @ es3" "status_requests es3 = []"
    "\<forall>n v pr. Agent_creation n v pr \<notin> set es3"
    "stt env = None \<or> openai env = None
       \<or> (truthy_str (timestampId b) \<and> timestamp_patch_rejects env) \<longrightarrow> ex = None"
    "thrown s3 = thrown ?s2"
    by (elim exE conjE)
  have sr3: "status_requests (log s3) = [Voice_uploaded]"
    using e3(1,2) by (simp add: update_requests)
  have no3: "Agent_creation n v pr \<notin> set (log s3)" for n v pr
    using e3(1,3) by (simp add: update_agent_events)
  have A: "status_patch env Voice_uploaded \<noteq> Request_rejects \<longrightarrow>
            take 2 (status_requests es) = [Voice_uploaded, Voice_created]
            \<and> (status_patch env Voice_created \<noteq> Request_rejects \<longrightarrow> (\<exists>n. Voice_clone n \<in> set es))"
  proof
    assume "status_patch env Voice_uploaded \<noteq> Request_rejects"
    with e3(5) have nt: "\<not> thrown s3" by simp
    from clone_voice_requests [OF c nt] obtain xs where
      q: "status_requests (log \<sigma>') = status_requests (log s3) @ Voice_created # xs"
      and vc: "status_patch env Voice_created \<noteq> Request_rejects \<longrightarrow>
                 Voice_clone (case (if truthy_str (agentName b) then agentName b else None) of
                Some n \<Rightarrow> n | None \<Rightarrow> ''FutureSelf-'' @ take 8 u) \<in> set (log \<sigma>')"
      by (elim exE conjE)
    from q sr3 es have B: "take 2 (status_requests es) = [Voice_uploaded, Voice_created]"
      by (simp add: numeral_2_eq_2)
    have C: "status_patch env Voice_created \<noteq> Request_rejects \<longrightarrow> (\<exists>n. Voice_clone n \<in> set es)"
    proof
      assume "status_patch env Voice_created \<noteq> Request_rejects"
      with vc have "Voice_clone (case (if truthy_str (agentName b) then agentName b else None) of
                Some n \<Rightarrow> n | None \<Rightarrow> ''FutureSelf-'' @ take 8 u) \<in> set (log \<sigma>')" by (rule mp)
      with es show "\<exists>n. Voice_clone n \<in> set es" by (intro exI) simp
    qed
    from B C show "take 2 (status_requests es) = [Voice_uploaded, Voice_created]
            \<and> (status_patch env Voice_created \<noteq> Request_rejects \<longrightarrow> (\<exists>n. Voice_clone n \<in> set es))"
      by (rule conjI)
  qed
  have C: "stt env = None \<or> openai env = None
            \<or> (truthy_str (timestampId b) \<and> timestamp_patch_rejects env) \<longrightarrow>
            (\<forall>n v pr. Agent_creation n v pr \<in> set es \<longrightarrow>
               pr = buildSystemPrompt
                      (case (if truthy_str (timestampId b) then ob_tsMeta env else None) of
                         None \<Rightarrow> None | Some m \<Rightarrow> fst m)
                      (case (if truthy_str (timestampId b) then ob_tsMeta env else None) of
                         None \<Rightarrow> None | Some m \<Rightarrow> snd m) None)"
  proof (intro impI allI)
    fix n v pr
    assume f: "stt env = None \<or> openai env = None
                 \<or> (truthy_str (timestampId b) \<and> timestamp_patch_rejects env)"
      and m: "Agent_creation n v pr \<in> set es"
    from f e3(4) have x: "ex = None" by (rule rev_mp)
    from m es have "Agent_creation n v pr \<in> set (log \<sigma>')" by simp
    from clone_voice_prompt [OF c this] no3 [of n v pr]
    show "pr = buildSystemPrompt
                      (case (if truthy_str (timestampId b) then ob_tsMeta env else None) of
                         None \<Rightarrow> None | Some m \<Rightarrow> fst m)
                      (case (if truthy_str (timestampId b) then ob_tsMeta env else None) of
                         None \<Rightarrow> None | Some m \<Rightarrow> snd m) None"
      unfolding x by simp
  qed
  from A C show ?thesis by (rule conjI)
qed

text \<open>A run in which every provider step succeeds.\<close>

lemma create_agent_success:
  assumes run: "create_agent env name v pr tr ex \<sigma> = (res, \<sigma>')"
    and ok: "agent_create env = Agent_json a1 a2" "truthy_str (or_str a1 a2)"
    and nt: "\<not> thrown \<sigma>"
  shows "(\<exists>a pv. res = Onboarded v a pv ex)
       \<and> status_requests (log \<sigma>') = status_requests (log \<sigma>) @ [Ready]
       \<and> map setup_status (states_of (log \<sigma>'))
           = map setup_status (states_of (log \<sigma>))
             @ filter (\<lambda>st. status_patch env st = Answered_ok) [Ready]
       \<and> (status_patch env Ready = Answered_ok \<longrightarrow> setup_status (prof \<sigma>') = Ready)
       \<and> Agent_creation name v pr \<in> set (log \<sigma>')
       \<and> thrown \<sigma>' = (status_patch env Ready = Request_rejects)"
  using create_agent_cases [OF run]
proof (elim disjE exE conjE)
  assume "\<forall>a1 a2. agent_create env = Agent_json a1 a2 \<longrightarrow> \<not> truthy_str (or_str a1 a2)"
  with ok show ?thesis by blast
next
  fix a
  assume s: "\<sigma>' = updateProfileStatus env Ready (\<lambda>p. p\<lparr>eleven_agent_id := Some a\<rparr>)
                      (request (Agent_creation name v pr) \<sigma>)"
    and r: "res = Onboarded v a (if tr \<noteq> [] then Some (take 180 tr) else None) ex"
  from r have A: "\<exists>a pv. res = Onboarded v a pv ex" by (intro exI)
  have B: "status_requests (log \<sigma>') = status_requests (log \<sigma>) @ [Ready]"
    unfolding s using nt by (simp add: update_requests)
  have C: "map setup_status (states_of (log \<sigma>'))
           = map setup_status (states_of (log \<sigma>))
             @ filter (\<lambda>st. status_patch env st = Answered_ok) [Ready]"
    unfolding s using nt by (simp add: update_states)
  have D: "status_patch env Ready = Answered_ok \<longrightarrow> setup_status (prof \<sigma>') = Ready"
    unfolding s using nt by (simp add: update_prof)
  have E: "Agent_creation name v pr \<in> set (log \<sigma>')"
    unfolding s using nt by (simp add: update_agent_events)
  have F: "thrown \<sigma>' = (status_patch env Ready = Request_rejects)"
    unfolding s using nt by simp
  from A B C D E F show ?thesis by (intro conjI)
qed

lemma clone_voice_success:
  assumes run: "clone_voice env name pr tr ex \<sigma> = (res, \<sigma>')"
    and vok: "voice_add env = Voice_json (Some v)" "v \<noteq> []"
    and aok: "agent_create env = Agent_json a1 a2" "truthy_str (or_str a1 a2)"
    and nt: "\<not> thrown \<sigma>"
    and nr: "status_patch env Voice_created \<noteq> Request_rejects"
            "status_patch env Agent_created \<noteq> Request_rejects"
  shows "(\<exists>a pv. res = Onboarded v a pv ex)
       \<and> status_requests (log \<sigma>')
           = status_requests (log \<sigma>) @ [Voice_created, Agent_created, Ready]
       \<and> map setup_status (states_of (log \<sigma>'))
           = map setup_status (states_of (log \<sigma>))
             @ filter (\<lambda>st. status_patch env st = Answered_ok) [Voice_created, Agent_created, Ready]
       \<and> (status_patch env Ready = Answered_ok \<longrightarrow> setup_status (prof \<sigma>') = Ready)
       \<and> Agent_creation name v pr \<in> set (log \<sigma>')
       \<and> thrown \<sigma>' = (status_patch env Ready = Request_rejects)"
  using clone_voice_cases [OF run]
proof (elim disjE exE conjE)
  assume "\<forall>v. voice_add env = Voice_json (Some v) \<longrightarrow> v = []"
  with vok show ?thesis by blast
next
  fix w
  let ?s3 = "\<lambda>w. updateProfileStatus env Agent_created (\<lambda>p. p\<lparr>eleven_voice_id := Some w\<rparr>)
               (request (Voice_clone name) (updateProfileStatus env Voice_created id \<sigma>))"
  assume w: "voice_add env = Voice_json (Some w)"
    and c: "create_agent env name w pr tr ex (?s3 w) = (res, \<sigma>')"
  from w vok(1) have "w = v" by simp
  with c have c': "create_agent env name v pr tr ex (?s3 v) = (res, \<sigma>')" by simp
  from nt nr have nt3: "\<not> thrown (?s3 v)" by simp
  note S = create_agent_success [OF c' aok nt3]
  from S have A: "\<exists>a pv. res = Onboarded v a pv ex" by (rule conjunct1)
  from S have "status_requests (log \<sigma>') = status_requests (log (?s3 v)) @ [Ready]"
    by (rule conjunct1 [OF conjunct2])
  then have B: "status_requests (log \<sigma>')
           = status_requests (log \<sigma>) @ [Voice_created, Agent_created, Ready]"
    using nt nr by (simp add: update_requests)
  from S have "map setup_status (states_of (log \<sigma>'))
           = map setup_status (states_of (log (?s3 v)))
             @ filter (\<lambda>st. status_patch env st = Answered_ok) [Ready]"
    by (rule conjunct1 [OF conjunct2 [OF conjunct2]])
  then have C: "map setup_status (states_of (log \<sigma>'))
           = map setup_status (states_of (log \<sigma>))
             @ filter (\<lambda>st. status_patch env st = Answered_ok) [Voice_created, Agent_created, Ready]"
    using nt nr by (simp add: update_states)
  from S have D: "status_patch env Ready = Answered_ok \<longrightarrow> setup_status (prof \<sigma>') = Ready"
    by (rule conjunct1 [OF conjunct2 [OF conjunct2 [OF conjunct2]]])
  from S have E: "Agent_creation name v pr \<in> set (log \<sigma>')"
    by (rule conjunct1 [OF conjunct2 [OF conjunct2 [OF conjunct2 [OF conjunct2]]]])
  from S have F: "thrown \<sigma>' = (status_patch env Ready = Request_rejects)"
    by (rule conjunct2 [OF conjunct2 [OF conjunct2 [OF conjunct2 [OF conjunct2]]]])
  from A B C D E F show ?thesis by (intro conjI)
qed

lemma run_success:
  assumes "processOnboarding env (Some p) = (res, es, stored)"
    and "valid_request env" and "already_ready p = None"
    and "signed_ok env" and "audio_ok env" and "ob_body env = Some b"
    and "voice_add env = Voice_json (Some v)" and "v \<noteq> []"
    and "agent_create env = Agent_json a1 a2" and "truthy_str (or_str a1 a2)"
    and nr: "status_patch env Voice_uploaded \<noteq> Request_rejects"
            "status_patch env Voice_created \<noteq> Request_rejects"
            "status_patch env Agent_created \<noteq> Request_rejects"
            "status_patch env Ready \<noteq> Request_rejects"
  shows "(\<exists>a pv ex. res = Onboarded v a pv ex
            \<and> (stt env = None \<or> openai env = None
                 \<or> (truthy_str (timestampId b) \<and> timestamp_patch_rejects env) \<longrightarrow> ex = None))
       \<and> status_requests es = [Voice_uploaded, Voice_created, Agent_created, Ready]
       \<and> map setup_status (states_of es)
           = filter (\<lambda>st. status_patch env st = Answered_ok)
               [Voice_uploaded, Voice_created, Agent_created, Ready]
       \<and> (status_patch env Ready = Answered_ok \<longrightarrow> map_option setup_status stored = Some Ready)
       \<and> (\<exists>n pr. Agent_creation n v pr \<in> set es)"
proof -
  let ?s0 = "updateProfileStatus env Voice_uploaded id \<lparr>prof = p, log = [], thrown = False\<rparr>"
  let ?s2 = "request Download_audio (request Sign_url ?s0)"
  from processOnboarding_run [OF assms(1,2,3)] assms(6) obtain u r \<sigma>' where
    run: "run_pipeline env u b \<lparr>prof = p, log = [], thrown = False\<rparr> = (r, \<sigma>')"
    and res: "res = (if thrown \<sigma>' then Ob_threw else r)"
    and es: "es = log \<sigma>'" "stored = Some (prof \<sigma>')"
    by (elim exE conjE) simp
  from run_pipeline_cases [OF run] assms(4,5) obtain tr ex s3 where
    t: "transcribe_and_extract env (truthy_str (timestampId b)) ?s2 = ((tr, ex), s3)"
    and c: "clone_voice env
             (case (if truthy_str (agentName b) then agentName b else None) of
                Some n \<Rightarrow> n | None \<Rightarrow> ''FutureSelf-'' @ take 8 u)
             (buildSystemPrompt
                (case (if truthy_str (timestampId b) then ob_tsMeta env else None) of
                   None \<Rightarrow> None | Some m \<Rightarrow> fst m)
                (case (if truthy_str (timestampId b) then ob_tsMeta env else None) of
                   None \<Rightarrow> None | Some m \<Rightarrow> snd m) ex)
             tr ex s3 = (r, \<sigma>')"
    by (elim disjE exE conjE) simp_all
  from transcribe_and_extract_log [OF t] obtain es3 where e3:
    "log s3 = log ?s2 @ es3" "states_of es3 = []" "status_requests es3 = []"
    "stt env = None \<or> openai env = None
       \<or> (truthy_str (timestampId b) \<and> timestamp_patch_rejects env) \<longrightarrow> ex = None"
    "thrown s3 = thrown ?s2"
    by (elim exE conjE)
  from e3(5) nr(1) have nt: "\<not> thrown s3" by simp
  have sr3: "status_requests (log s3) = [Voice_uploaded]"
    using e3(1,3) by (simp add: update_requests)
  have st3: "map setup_status (states_of (log s3))
               = filter (\<lambda>st. status_patch env st = Answered_ok) [Voice_uploaded]"
    using e3(1,2) by (simp add: update_states)
  note S = clone_voice_success [OF c assms(7,8,9,10) nt nr(2,3)]
  from S obtain a pv where o: "r = Onboarded v a pv ex" by (elim conjE exE)
  from S have "thrown \<sigma>' = (status_patch env Ready = Request_rejects)"
    by (rule conjunct2 [OF conjunct2 [OF conjunct2 [OF conjunct2 [OF conjunct2]]]])
  with nr(4) res o have "res = Onboarded v a pv ex" by simp
  with e3(4) have A: "\<exists>a pv ex. res = Onboarded v a pv ex
            \<and> (stt env = None \<or> openai env = None
                 \<or> (truthy_str (timestampId b) \<and> timestamp_patch_rejects env) \<longrightarrow> ex = None)"
    by (intro exI conjI)
  from S have "status_requests (log \<sigma>')
           = status_requests (log s3) @ [Voice_created, Agent_created, Ready]"
    by (rule conjunct1 [OF conjunct2])
  with sr3 es have B: "status_requests es = [Voice_uploaded, Voice_created, Agent_created, Ready]"
    by simp
  from S have "map setup_status (states_of (log \<sigma>'))
           = map setup_status (states_of (log s3))
             @ filter (\<lambda>st. status_patch env st = Answered_ok) [Voice_created, Agent_created, Ready]"
    by (rule conjunct1 [OF conjunct2 [OF conjunct2]])
  with st3 es have C: "map setup_status (states_of es)
           = filter (\<lambda>st. status_patch env st = Answered_ok)
               [Voice_uploaded, Voice_created, Agent_created, Ready]"
    by simp
  from S have "status_patch env Ready = Answered_ok \<longrightarrow> setup_status (prof \<sigma>') = Ready"
    by (rule conjunct1 [OF conjunct2 [OF conjunct2 [OF conjunct2]]])
  with es have D: "status_patch env Ready = Answered_ok
                     \<longrightarrow> map_option setup_status stored = Some Ready"
    by simp
  from S have "Agent_creation
             (case (if truthy_str (agentName b) then agentName b else None) of
                Some n \<Rightarrow> n | None \<Rightarrow> ''FutureSelf-'' @ take 8 u) v
             (buildSystemPrompt
                (case (if truthy_str (timestampId b) then ob_tsMeta env else None) of
                   None \<Rightarrow> None | Some m \<Rightarrow> fst m)
                (case (if truthy_str (timestampId b) then ob_tsMeta env else None) of
                   None \<Rightarrow> None | Some m \<Rightarrow> snd m) ex) \<in> set (log \<sigma>')"
    by (rule conjunct1 [OF conjunct2 [OF conjunct2 [OF conjunct2 [OF conjunct2]]]])
  then have "Agent_creation
             (case (if truthy_str (agentName b) then agentName b else None) of
                Some n \<Rightarrow> n | None \<Rightarrow> ''FutureSelf-'' @ take 8 u) v
             (buildSystemPrompt
                (case (if truthy_str (timestampId b) then ob_tsMeta env else None) of
                   None \<Rightarrow> None | Some m \<Rightarrow> fst m)
                (case (if truthy_str (timestampId b) then ob_tsMeta env else None) of
                   None \<Rightarrow> None | Some m \<Rightarrow> snd m) ex) \<in> set es"
    unfolding es .
  then have E: "\<exists>n pr. Agent_creation n v pr \<in> set es" by (intro exI)
  from A B C D E show ?thesis by (intro conjI)
qed

section \<open>The claims about onboarding\<close>

text \<open>
  Claim C1, as the code has it. A status PATCH is awaited and its response dropped, so a
  run goes on when the store answers one with an error: when the PATCH that sets
  \<open>agent_created\<close> and carries the voice id is refused and the later one that sets
  \<open>ready\<close> is accepted, the row is ready without a voice id. What holds: start from any
  profile row that satisfies the invariant (ready implies a voice id and an agent id)
  and apply any sequence of the operations that write the row (onboarding runs with any
  answers of storage, transcription, extraction, voice cloning and agent creation, so
  with a failure or a throw at any step, enqueue requests and phone syncs) in which the
  store does not refuse the \<open>agent_created\<close> PATCH of a run whose \<open>ready\<close> PATCH it
  accepts. Every row the profile goes through, the ones written in the middle of a run
  included, satisfies the invariant.
\<close>

theorem ready_implies_voice_and_agent_ids:
  assumes "ready_has_ids p0" and "\<forall>x \<in> set ops. accepts_voice_before_ready x"
  shows "\<forall>p \<in> set (visited ops p0). ready_has_ids p"
  using assms
proof (induction ops arbitrary: p0)
  case Nil
  then show ?case by simp
next
  case (Cons x xs)
  from Cons.prems(2) have x: "accepts_voice_before_ready x"
    and xs: "\<forall>y \<in> set xs. accepts_voice_before_ready y" by simp_all
  from op_states_invariant [OF Cons.prems(1) x]
  have a: "\<forall>q \<in> set (fst (op_states x p0)). ready_has_ids q"
    and b: "ready_has_ids (snd (op_states x p0))" by blast+
  from Cons.IH [OF b xs] a Cons.prems(1) show ?case by auto
qed

theorem ready_implies_voice_and_agent_ids_witness:
  "ready_has_ids new_profile
   \<and> list_all accepts_voice_before_ready example_ops
   \<and> map setup_status (visited example_ops new_profile)
       = [New, Voice_uploaded, Voice_uploaded, Voice_uploaded, Voice_created, Agent_created,
          Error, Error, Voice_uploaded, Voice_created, Agent_created, Ready, Ready, Ready,
          Ready, Ready]
   \<and> ready_has_ids (last (visited example_ops new_profile))
   \<and> setup_status (last (visited example_ops new_profile)) = Ready
   \<and> eleven_voice_id (last (visited example_ops new_profile)) \<noteq> None
   \<and> eleven_agent_id (last (visited example_ops new_profile)) \<noteq> None"
proof -
  have h: "ready_has_ids new_profile" by code_simp
  have k: "list_all accepts_voice_before_ready example_ops" by code_simp
  then have k': "\<forall>x \<in> set example_ops. accepts_voice_before_ready x"
    by (simp only: list_all_iff)
  have a: "map setup_status (visited example_ops new_profile)
       = [New, Voice_uploaded, Voice_uploaded, Voice_uploaded, Voice_created, Agent_created,
          Error, Error, Voice_uploaded, Voice_created, Agent_created, Ready, Ready, Ready,
          Ready, Ready]" by code_simp
  have r: "setup_status (last (visited example_ops new_profile)) = Ready" by code_simp
  have "visited example_ops new_profile \<noteq> []" by code_simp
  then have m: "last (visited example_ops new_profile) \<in> set (visited example_ops new_profile)"
    by (rule last_in_set)
  note T = ready_implies_voice_and_agent_ids [OF h k']
  from T m have i: "ready_has_ids (last (visited example_ops new_profile))" by (rule bspec)
  from i r have v: "eleven_voice_id (last (visited example_ops new_profile)) \<noteq> None"
    and g: "eleven_agent_id (last (visited example_ops new_profile)) \<noteq> None"
    by (simp_all add: ready_has_ids_def)
  from h k a i r v g show ?thesis by (intro conjI)
qed

text \<open>
  Claim C1 as stated fails on a run in which every provider step succeeds and the store
  accepts every status PATCH but the one that sets \<open>agent_created\<close>, which it answers
  with an error: the run answers success and leaves the profile ready, with an agent id
  and without a voice id.
\<close>

theorem ready_without_voice_id_counterexample:
  "ready_has_ids new_profile
   \<and> fst (processOnboarding voice_patch_refused_env (Some new_profile))
       = Onboarded ''voice_9'' ''agent_9'' None None
   \<and> status_requests (fst (snd (processOnboarding voice_patch_refused_env (Some new_profile))))
       = [Voice_uploaded, Voice_created, Agent_created, Ready]
   \<and> map setup_status
       (states_of (fst (snd (processOnboarding voice_patch_refused_env (Some new_profile)))))
       = [Voice_uploaded, Voice_created, Ready]
   \<and> snd (snd (processOnboarding voice_patch_refused_env (Some new_profile)))
       = Some \<lparr>phone_e164 = Some ''+15550100'', setup_status = Ready,
               eleven_voice_id = None, eleven_agent_id = Some ''agent_9''\<rparr>
   \<and> \<not> ready_has_ids \<lparr>phone_e164 = Some ''+15550100'', setup_status = Ready,
                       eleven_voice_id = None, eleven_agent_id = Some ''agent_9''\<rparr>"
  by code_simp

text \<open>
  Claim C4. For a request that reaches the idempotency check (authenticated, with a voice
  sample path, and the store answers the profile query) on a profile that is ready with a
  non-empty voice id and agent id, processOnboarding returns those ids; the run does
  nothing: its list of events is empty, so it sends no request to storage,
  transcription, voice cloning or agent creation and no status update, and the stored
  profile is unchanged. A second such request on the resulting profile returns the same.
\<close>

theorem ready_profile_is_returned_untouched:
  assumes "valid_request env" and "valid_request env2"
    and "setup_status p = Ready"
    and "eleven_voice_id p = Some v" and "v \<noteq> []"
    and "eleven_agent_id p = Some a" and "a \<noteq> []"
  shows "processOnboarding env (Some p) = (Already_ready v a, [], Some p)
       \<and> processOnboarding env2 (snd (snd (processOnboarding env (Some p))))
           = (Already_ready v a, [], Some p)"
proof -
  have r: "already_ready p = Some (v, a)" using assms(3-7) by (simp add: already_ready_def)
  have "processOnboarding e (Some p) = (Already_ready v a, [], Some p)" if "valid_request e" for e
    using that r
    by (auto simp: processOnboarding_def valid_request_def truthy_str_def split: option.splits)
  with assms(1,2) show ?thesis by simp
qed

theorem ready_profile_is_returned_untouched_witness:
  "valid_request example_onboarding_env
   \<and> processOnboarding example_onboarding_env (Some ready_profile)
       = (Already_ready ''voice_1'' ''agent_1'', [], Some ready_profile)
   \<and> processOnboarding example_onboarding_env
         (snd (snd (processOnboarding example_onboarding_env (Some ready_profile))))
       = (Already_ready ''voice_1'' ''agent_1'', [], Some ready_profile)"
proof -
  have h1: "valid_request example_onboarding_env" by code_simp
  have h2: "setup_status ready_profile = Ready" by code_simp
  have h3: "eleven_voice_id ready_profile = Some ''voice_1''" by code_simp
  have h4: "eleven_agent_id ready_profile = Some ''agent_1''" by code_simp
  have h5: "''voice_1'' \<noteq> []" "''agent_1'' \<noteq> []" by simp_all
  show ?thesis
    using h1 ready_profile_is_returned_untouched [OF h1 h1 h2 h3 h5(1) h4 h5(2)] by simp
qed



section \<open>Statuses over sequences of operations\<close>

subsection \<open>Rows keep their place and never lose a stage\<close>

lemma calls_forward_refl: "calls_forward cs cs"
  by (simp add: calls_forward_def)

lemma calls_forward_trans:
  assumes "calls_forward a b" and "calls_forward b c"
  shows "calls_forward a c"
  unfolding calls_forward_def
proof (intro conjI allI impI)
  show "length a \<le> length c" using assms by (simp add: calls_forward_def)
next
  fix k assume k: "k < length a"
  then have kb: "k < length b" using assms(1) by (simp add: calls_forward_def)
  from assms(1) k have 1: "call_id (b ! k) = call_id (a ! k)"
    "call_rank (status (a ! k)) \<le> call_rank (status (b ! k))"
    by (simp_all add: calls_forward_def)
  from assms(2) kb have 2: "call_id (c ! k) = call_id (b ! k)"
    "call_rank (status (b ! k)) \<le> call_rank (status (c ! k))"
    by (simp_all add: calls_forward_def)
  from 1 2 show "call_id (c ! k) = call_id (a ! k)" by simp
  from 1 2 show "call_rank (status (a ! k)) \<le> call_rank (status (c ! k))" by simp
qed

lemma calls_forward_map:
  assumes "\<And>r. call_id (g r) = call_id r \<and> call_rank (status r) \<le> call_rank (status (g r))"
  shows "calls_forward cs (map g cs)"
  by (simp add: calls_forward_def assms)

lemma calls_forward_append: "calls_forward cs (cs @ rest)"
  by (simp add: calls_forward_def nth_append)

lemma rank_apply_outcome:
  "call_rank (status r) \<le> call_rank (status (apply_outcome now oc r))"
  by (cases oc; cases "status r") simp_all

lemma rank_row_patch:
  "call_rank (status r) \<le> call_rank (status (row_patch now el patch c r))"
  by (simp add: row_patch_def rank_apply_outcome split: result.splits)

lemma fold_row_forward:
  "call_id (foldl (\<lambda>r' c. if call_id r' = call_id c
        then row_patch now el patch c r' else r') r rows) = call_id r
   \<and> call_rank (status r) \<le> call_rank (status (foldl (\<lambda>r' c. if call_id r' = call_id c
        then row_patch now el patch c r' else r') r rows))"
proof (induction rows arbitrary: r)
  case Nil
  then show ?case by simp
next
  case (Cons c rows)
  let ?r1 = "if call_id r = call_id c then row_patch now el patch c r else r"
  have a: "call_id ?r1 = call_id r" by simp
  have b: "call_rank (status r) \<le> call_rank (status ?r1)" by (simp add: rank_row_patch)
  from Cons.IH [of ?r1] a b show ?case by simp
qed

lemma reconcile_forward:
  "calls_forward cs (fst (reconcileStuckCalls u fetch now el patch cs))"
proof (cases fetch)
  case Answered_ok
  have "calls_forward cs (map (\<lambda>r. foldl (\<lambda>r' c. if call_id r' = call_id c
                 then row_patch now el patch c r' else r') r
                   (reached now el patch (fetch_active u cs))) cs)"
    by (rule calls_forward_map) (rule fold_row_forward)
  with Answered_ok show ?thesis by (simp add: reconcileStuckCalls_def reconcile_loop_map)
qed (simp_all add: reconcileStuckCalls_def calls_forward_refl)

lemma dial_and_record_appends:
  assumes "dial_and_record d now (fresh_call_id cs) num (cs @ [r]) = (res, cs')"
  shows "\<exists>r'. cs' = cs @ [r']"
  using assms by (cases d) (auto simp: dial_and_record_def patch_fresh Let_def)

lemma insert_and_dial_appends:
  assumes "insert_and_dial env now u num ts cs = (res, cs')"
  shows "\<exists>rest. cs' = cs @ rest"
proof (cases "call_insert env")
  case (Insert_rejected t)
  with assms have "cs' = cs @ []" by (simp add: insert_and_dial_def)
  then show ?thesis by (rule exI)
next
  case Inserted
  with assms have "dial_and_record (dial env) now (fresh_call_id cs) num
           (cs @ [queued_row (fresh_call_id cs) u ts None Manual num now]) = (res, cs')"
    by (simp add: insert_and_dial_def Let_def)
  from dial_and_record_appends [OF this] obtain r' where "cs' = cs @ [r']" ..
  then show ?thesis by (rule exI)
next
  case Inserted_without_id
  with assms have "cs' = cs @ [queued_row (fresh_call_id cs) u ts None Manual num now]"
    by (auto simp: insert_and_dial_def Let_def)
  then show ?thesis by (rule exI)
qed

lemma check_insert_dial_appends:
  assumes "check_insert_dial env now u num ts cs = (res, cs')"
  shows "\<exists>rest. cs' = cs @ rest"
proof (cases "active_check env u cs")
  case (Some e)
  with assms have "cs' = cs @ []" by (simp add: check_insert_dial_def)
  then show ?thesis by (rule exI)
next
  case None
  with assms have "insert_and_dial env now u num ts cs = (res, cs')"
    by (simp add: check_insert_dial_def)
  then show ?thesis by (rule insert_and_dial_appends)
qed

lemma startCall_forward:
  "calls_forward (calls s) (calls (snd (startCall env now s)))"
proof -
  obtain res s' where r: "startCall env now s = (res, s')" by (cases "startCall env now s")
  from startCall_calls [OF r] have "calls_forward (calls s) (calls s')"
  proof (elim disjE exE conjE)
    assume "calls s' = calls s" then show ?thesis by (simp add: calls_forward_refl)
  next
    fix u assume "calls s' = fst (reconcileStuckCalls u (active_fetch env) now (el_query env)
                                    (reconcile_patch env) (calls s))"
    then show ?thesis by (simp add: reconcile_forward)
  next
    fix u num ts
    assume "check_insert_dial env now u num ts
        (fst (reconcileStuckCalls u (active_fetch env) now (el_query env)
                (reconcile_patch env) (calls s))) = (res, calls s')"
    from check_insert_dial_appends [OF this] obtain rest where
      "calls s' = fst (reconcileStuckCalls u (active_fetch env) now (el_query env)
                         (reconcile_patch env) (calls s)) @ rest" ..
    then have "calls_forward (fst (reconcileStuckCalls u (active_fetch env) now (el_query env)
                                     (reconcile_patch env) (calls s))) (calls s')"
      by (simp add: calls_forward_append)
    with reconcile_forward show ?thesis by (rule calls_forward_trans)
  qed
  with r show ?thesis by simp
qed

lemma scheds_forward_refl: "scheds_forward rows rows"
  by (simp add: scheds_forward_def)

lemma scheds_forward_trans:
  assumes "scheds_forward a b" and "scheds_forward b c"
  shows "scheds_forward a c"
  unfolding scheds_forward_def
proof (intro conjI allI impI)
  show "length c = length a" using assms by (simp add: scheds_forward_def)
next
  fix k assume k: "k < length a"
  then have kb: "k < length b" using assms(1) by (simp add: scheds_forward_def)
  from assms(1) k have 1: "sc_id (b ! k) = sc_id (a ! k)"
    "sched_rank (sc_status (a ! k)) \<le> sched_rank (sc_status (b ! k))"
    by (simp_all add: scheds_forward_def)
  from assms(2) kb have 2: "sc_id (c ! k) = sc_id (b ! k)"
    "sched_rank (sc_status (b ! k)) \<le> sched_rank (sc_status (c ! k))"
    by (simp_all add: scheds_forward_def)
  from 1 2 show "sc_id (c ! k) = sc_id (a ! k)" by simp
  from 1 2 show "sched_rank (sc_status (a ! k)) \<le> sched_rank (sc_status (c ! k))" by simp
qed

lemma scheds_forward_map:
  assumes "\<And>r. r \<in> set rows \<Longrightarrow>
     sc_id (g r) = sc_id r \<and> sched_rank (sc_status r) \<le> sched_rank (sc_status (g r))"
  shows "scheds_forward rows (map g rows)"
  by (simp add: scheds_forward_def assms)

lemma sched_rank_le_2: "sched_rank st \<le> 2"
  by (cases st) simp_all

lemma markScheduled_forward:
  assumes "\<And>r. sc_id (f r) = sc_id r \<and> sched_rank (sc_status (f r)) = 2"
  shows "scheds_forward rows (markScheduled i f rows)"
  unfolding markScheduled_def
proof (rule scheds_forward_map)
  fix r :: scheduled_call
  show "sc_id (if sc_id r = i then f r else r) = sc_id r
      \<and> sched_rank (sc_status r) \<le> sched_rank (sc_status (if sc_id r = i then f r else r))"
    using assms [of r] sched_rank_le_2 [of "sc_status r"] by simp
qed

lemma claim_patch_forward:
  "scheds_forward rows (fst (claim_patch nowIso row rows))"
  unfolding claim_patch_def fst_conv
proof (rule scheds_forward_map)
  fix r :: scheduled_call
  show "sc_id (if sc_id r = sc_id row \<and> sc_status r = Pending then claim_update nowIso row r else r) = sc_id r
      \<and> sched_rank (sc_status r) \<le> sched_rank (sc_status
           (if sc_id r = sc_id row \<and> sc_status r = Pending then claim_update nowIso row r else r))"
    by (simp add: claim_update_def)
qed

lemma rpc_claim_due_forward:
  "scheds_forward rows (fst (rpc_claim_due nowIso n rows))"
proof -
  have "scheds_forward rows (map (\<lambda>r. if r \<in> set (select_due nowIso n rows)
                                      then r\<lparr>sc_status := Executing\<rparr> else r) rows)"
  proof (rule scheds_forward_map)
    fix r :: scheduled_call
    have "r \<in> set (select_due nowIso n rows) \<Longrightarrow> sc_status r = Pending"
      using select_due_subset by fastforce
    then show "sc_id (if r \<in> set (select_due nowIso n rows) then r\<lparr>sc_status := Executing\<rparr> else r) = sc_id r
      \<and> sched_rank (sc_status r) \<le> sched_rank (sc_status
           (if r \<in> set (select_due nowIso n rows) then r\<lparr>sc_status := Executing\<rparr> else r))"
      by simp
  qed
  then show ?thesis by (simp add: rpc_claim_due_def Let_def)
qed

lemma claim_loop_forward:
  "scheds_forward rows (fst (claim_loop nowIso claim due rows claimed))"
proof (induction due arbitrary: rows claimed)
  case Nil
  then show ?case by (simp add: scheds_forward_refl)
next
  case (Cons row due)
  show ?case
  proof (cases "claim (sc_id row)")
    case Request_rejects
    then show ?thesis by (simp add: scheds_forward_refl)
  next
    case Answered_not_ok
    with Cons.IH [of rows claimed] show ?thesis by simp
  next
    case Answered_ok
    obtain rows1 updated where c: "claim_patch nowIso row rows = (rows1, updated)"
      by (cases "claim_patch nowIso row rows")
    from claim_patch_forward [of rows nowIso row] c have 1: "scheds_forward rows rows1" by simp
    have 2: "scheds_forward rows1 (fst (claim_loop nowIso claim due rows1
                 (case updated of [] \<Rightarrow> claimed | u # rest \<Rightarrow> claimed @ [u])))"
      by (rule Cons.IH)
    from scheds_forward_trans [OF 1 2] Answered_ok c show ?thesis by simp
  qed
qed

lemma claimDueScheduled_forward:
  "scheds_forward rows (fst (claimDueScheduled env nowIso n rows))"
proof (cases "rpc_answer env")
  case Request_rejects
  then show ?thesis by (simp add: claimDueScheduled_def scheds_forward_refl)
next
  case Answered_ok
  obtain rows' jobs where r: "rpc_claim_due nowIso n rows = (rows', jobs)"
    by (cases "rpc_claim_due nowIso n rows")
  with rpc_claim_due_forward [of rows nowIso n] have "scheds_forward rows rows'" by simp
  with Answered_ok r show ?thesis by (simp add: claimDueScheduled_def)
next
  case Answered_not_ok
  show ?thesis
  proof (cases "due_fetch_ok env")
    case False
    with Answered_not_ok show ?thesis by (simp add: claimDueScheduled_def scheds_forward_refl)
  next
    case True
    obtain rows' claimed threw
      where l: "claim_loop nowIso (claim_answer env) (select_due nowIso n rows) rows []
                  = (rows', claimed, threw)"
      by (cases "claim_loop nowIso (claim_answer env) (select_due nowIso n rows) rows []")
    with claim_loop_forward [of rows nowIso "claim_answer env" "select_due nowIso n rows" "[]"]
    have "scheds_forward rows rows'" by simp
    with l True Answered_not_ok show ?thesis by (simp add: claimDueScheduled_def)
  qed
qed

lemma patch_call_failed_forward:
  "calls_forward cs (patch_call i (\<lambda>r. r\<lparr>status := Failed, ended_at := e, failure_reason := m\<rparr>) cs)"
  unfolding patch_call_def
proof (rule calls_forward_map)
  fix r :: call
  show "call_id (if call_id r = i then r\<lparr>status := Failed, ended_at := e, failure_reason := m\<rparr> else r) = call_id r
      \<and> call_rank (status r) \<le> call_rank (status
           (if call_id r = i then r\<lparr>status := Failed, ended_at := e, failure_reason := m\<rparr> else r))"
    by (cases "status r") simp_all
qed

text \<open>The try block of a job leaves the store, or appends a queued call row, or appends
  a dialing call row and marks the scheduled call executed.\<close>

lemma try_job_outcomes:
  assumes "try_job env nowIso job s = (x, s')"
  shows "s' = s
     \<or> (\<exists>phone. s' = s\<lparr>calls := calls s @
            [queued_row (fresh_call_id (calls s)) (sc_clerk_user_id job) (sc_timestamp_id job)
                           (Some (sc_id job)) Scheduled phone nowIso]\<rparr>)
     \<or> (\<exists>phone conv sid. s' = (s\<lparr>calls := calls s @
            [queued_row (fresh_call_id (calls s)) (sc_clerk_user_id job) (sc_timestamp_id job)
                           (Some (sc_id job)) Scheduled phone nowIso]\<rparr>)
           \<lparr>calls := patchCall (fresh_call_id (calls s))
               (\<lambda>r. r\<lparr>status := Dialing, started_at := Some nowIso,
                                       eleven_conversation_id := conv, twilio_call_sid := sid\<rparr>)
               (calls s @ [queued_row (fresh_call_id (calls s)) (sc_clerk_user_id job)
                   (sc_timestamp_id job) (Some (sc_id job)) Scheduled phone nowIso]),
            scheduled_calls := markScheduled (sc_id job)
               (\<lambda>r. r\<lparr>sc_status := Executed, executed_at := Some nowIso,
                                       sc_failure_reason := None\<rparr>)
               (scheduled_calls s)\<rparr>)"
    (is "?A \<or> ?B \<or> ?C")
proof -
  have same: "s' = s \<Longrightarrow> ?thesis" by (rule disjI1)
  show ?thesis
  proof (cases "prof_fetch_ok env")
    case False
    with assms have "s' = s" by (simp add: try_job_def)
    then show ?thesis by (rule same)
  next
    case fetch: True
    show ?thesis
    proof (cases "profiles s (sc_clerk_user_id job)")
      case None
      with fetch assms have "s' = s" by (simp add: try_job_def)
      then show ?thesis by (rule same)
    next
      case (Some prof)
      show ?thesis
      proof (cases "setup_status prof = Ready")
        case False
        with Some fetch assms have "s' = s" by (simp add: try_job_def)
        then show ?thesis by (rule same)
      next
        case ready: True
        show ?thesis
        proof (cases "truthy_str (eleven_agent_id prof)")
          case False
          with ready Some fetch assms have "s' = s" by (simp add: try_job_def)
          then show ?thesis by (rule same)
        next
          case agent: True
          show ?thesis
          proof (cases "truthy_str (phone_e164 prof)")
            case False
            with agent ready Some fetch assms have "s' = s" by (simp add: try_job_def)
            then show ?thesis by (rule same)
          next
            case True
            then obtain phone where ph: "phone_e164 prof = Some phone"
              by (cases "phone_e164 prof") (simp_all add: truthy_str_def)
            define s1 where "s1 = s\<lparr>calls := calls s @
               [queued_row (fresh_call_id (calls s)) (sc_clerk_user_id job) (sc_timestamp_id job)
                           (Some (sc_id job)) Scheduled phone nowIso]\<rparr>"
            have second: "s' = s1 \<Longrightarrow> ?thesis"
            proof -
              assume "s' = s1"
              then have ?B unfolding s1_def by (rule exI)
              then show ?thesis by (intro disjI2 disjI1)
            qed
            show ?thesis
            proof (cases "job_insert env")
              case (Insert_rejected t)
              with True ph agent ready Some fetch assms have "s' = s"
                by (simp add: try_job_def Let_def)
              then show ?thesis by (rule same)
            next
              case Inserted_without_id
              with True ph agent ready Some fetch assms have "s' = s1"
                by (simp add: try_job_def Let_def s1_def)
              then show ?thesis by (rule second)
            next
              case Inserted
              show ?thesis
              proof (cases "job_dial env")
                case (Job_dial_threw msg)
                with Inserted True ph agent ready Some fetch assms have "s' = s1"
                  by (simp add: try_job_def Let_def s1_def)
                then show ?thesis by (rule second)
              next
                case (Job_dial_response st elText conv sid)
                show ?thesis
                proof (cases "200 \<le> st \<and> st \<le> 299")
                  case False
                  with Job_dial_response Inserted True ph agent ready Some fetch assms
                  have "s' = s1" by (simp add: try_job_def Let_def s1_def)
                  then show ?thesis by (rule second)
                next
                  case ok: True
                  with Job_dial_response Inserted True ph agent ready Some fetch assms
                  have "s' = s1\<lparr>calls := patchCall (fresh_call_id (calls s))
                     (\<lambda>r. r\<lparr>status := Dialing, started_at := Some nowIso,
                                       eleven_conversation_id := conv, twilio_call_sid := sid\<rparr>)
                     (calls s1),
                    scheduled_calls := markScheduled (sc_id job)
                     (\<lambda>r. r\<lparr>sc_status := Executed, executed_at := Some nowIso,
                                       sc_failure_reason := None\<rparr>)
                     (scheduled_calls s1)\<rparr>"
                    by (simp add: try_job_def Let_def s1_def)
                  then have ?C unfolding s1_def by (simp only: ) (intro exI, simp)
                  then show ?thesis by (intro disjI2)
                qed
              qed
            qed
          qed
        qed
      qed
    qed
  qed
qed

lemma try_job_forward:
  assumes "try_job env nowIso job s = (x, s')"
  shows "(\<exists>rest. calls s' = calls s @ rest) \<and> scheds_forward (scheduled_calls s) (scheduled_calls s')"
proof -
  let ?new = "\<lambda>phone. queued_row (fresh_call_id (calls s)) (sc_clerk_user_id job) (sc_timestamp_id job)
                           (Some (sc_id job)) Scheduled phone nowIso"
  from try_job_outcomes [OF assms] show ?thesis
  proof (elim disjE exE)
    assume "s' = s"
    then have "calls s' = calls s @ []" by simp
    then have "\<exists>rest. calls s' = calls s @ rest" by (rule exI)
    with \<open>s' = s\<close> show ?thesis by (simp add: scheds_forward_refl)
  next
    fix phone assume e: "s' = s\<lparr>calls := calls s @ [?new phone]\<rparr>"
    then have "calls s' = calls s @ [?new phone]" by simp
    then have "\<exists>rest. calls s' = calls s @ rest" by (rule exI)
    with e show ?thesis by (simp add: scheds_forward_refl)
  next
    fix phone conv sid
    assume e: "s' = (s\<lparr>calls := calls s @ [?new phone]\<rparr>)
           \<lparr>calls := patchCall (fresh_call_id (calls s))
               (\<lambda>r. r\<lparr>status := Dialing, started_at := Some nowIso,
                                       eleven_conversation_id := conv, twilio_call_sid := sid\<rparr>)
               (calls s @ [?new phone]),
            scheduled_calls := markScheduled (sc_id job)
               (\<lambda>r. r\<lparr>sc_status := Executed, executed_at := Some nowIso,
                                       sc_failure_reason := None\<rparr>)
               (scheduled_calls s)\<rparr>"
    have "calls s' = calls s @ [if call_id (?new phone) = fresh_call_id (calls s)
            then (?new phone)\<lparr>status := Dialing, started_at := Some nowIso,
                                       eleven_conversation_id := conv, twilio_call_sid := sid\<rparr>
            else ?new phone]"
      unfolding e by (simp add: patchCall_def patch_fresh)
    then have a: "\<exists>rest. calls s' = calls s @ rest" by (rule exI)
    have "scheds_forward (scheduled_calls s) (markScheduled (sc_id job)
               (\<lambda>r. r\<lparr>sc_status := Executed, executed_at := Some nowIso,
                                       sc_failure_reason := None\<rparr>) (scheduled_calls s))"
      by (rule markScheduled_forward) simp
    then have b: "scheds_forward (scheduled_calls s) (scheduled_calls s')" unfolding e by simp
    from a b show ?thesis by (rule conjI)
  qed
qed

lemma process_job_forward:
  assumes "process_job t env nowIso job s = (ok, s')"
  shows "calls_forward (calls s) (calls s')
       \<and> scheds_forward (scheduled_calls s) (scheduled_calls s')"
proof -
  obtain x s1 where tj: "try_job env nowIso job s = (x, s1)" by (cases "try_job env nowIso job s")
  from try_job_forward [OF tj] obtain rest where
    c1: "calls s1 = calls s @ rest" and f1: "scheds_forward (scheduled_calls s) (scheduled_calls s1)"
    by (elim conjE exE)
  from c1 have cf1: "calls_forward (calls s) (calls s1)" by (simp add: calls_forward_append)
  show ?thesis
  proof (cases x)
    case (Inr u)
    with tj assms have "s' = s1" by (simp add: process_job_def)
    with cf1 f1 show ?thesis by simp
  next
    case (Inl mc)
    obtain msg cid where mc: "mc = (msg, cid)" by (cases mc)
    define reason where "reason = take 900 (case (if truthy_str msg then msg else None) of
                                   None \<Rightarrow> ''unknown_error'' | Some m \<Rightarrow> m)"
    define rows2 where "rows2 = markScheduled (sc_id job)
                        (\<lambda>r. r\<lparr>sc_status := Sched_failed,
                                sc_failure_reason := Some (''['' @ t @ ''] '' @ reason)\<rparr>)
                        (scheduled_calls s1)"
    have "scheds_forward (scheduled_calls s1) rows2"
      unfolding rows2_def by (rule markScheduled_forward) simp
    with f1 have f2: "scheds_forward (scheduled_calls s) rows2" by (rule scheds_forward_trans)
    show ?thesis
    proof (cases cid)
      case None
      with Inl mc tj assms have "s' = s1\<lparr>scheduled_calls := rows2\<rparr>"
        by (simp add: process_job_def Let_def rows2_def reason_def)
      with cf1 f2 show ?thesis by simp
    next
      case (Some i)
      with Inl mc tj assms have e: "s' = (s1\<lparr>scheduled_calls := rows2\<rparr>)\<lparr>calls := patchCall i
                    (\<lambda>r. r\<lparr>status := Failed, ended_at := Some nowIso,
                            failure_reason := Some reason\<rparr>) (calls s1)\<rparr>"
        by (simp add: process_job_def Let_def rows2_def reason_def)
      have "calls_forward (calls s1) (calls s')"
        unfolding e by (simp add: patchCall_def patch_call_failed_forward)
      with cf1 have "calls_forward (calls s) (calls s')" by (rule calls_forward_trans)
      moreover from e f2 have "scheds_forward (scheduled_calls s) (scheduled_calls s')" by simp
      ultimately show ?thesis by (rule conjI)
    qed
  qed
qed

lemma process_jobs_forward:
  assumes "process_jobs t envs nowIso jobs n s = (m, s')"
  shows "calls_forward (calls s) (calls s')
       \<and> scheds_forward (scheduled_calls s) (scheduled_calls s')"
  using assms
proof (induction jobs arbitrary: n s)
  case Nil
  then show ?case by (simp add: calls_forward_refl scheds_forward_refl)
next
  case (Cons job jobs)
  obtain ok s1 where pj: "process_job t (envs (sc_id job)) nowIso job s = (ok, s1)"
    by (cases "process_job t (envs (sc_id job)) nowIso job s")
  with Cons.prems have "process_jobs t envs nowIso jobs (if ok then Suc n else n) s1 = (m, s')"
    by simp
  from Cons.IH [OF this] have b: "calls_forward (calls s1) (calls s')"
    "scheds_forward (scheduled_calls s1) (scheduled_calls s')" by simp_all
  from process_job_forward [OF pj] have a: "calls_forward (calls s) (calls s1)"
    "scheds_forward (scheduled_calls s) (scheduled_calls s1)" by simp_all
  from a(1) b(1) have "calls_forward (calls s) (calls s')" by (rule calls_forward_trans)
  moreover from a(2) b(2) have "scheds_forward (scheduled_calls s) (scheduled_calls s')"
    by (rule scheds_forward_trans)
  ultimately show ?case by (rule conjI)
qed

lemma runDueCalls_forward:
  "calls_forward (calls s) (calls (snd (runDueCalls env nowIso s)))
   \<and> scheds_forward (scheduled_calls s) (scheduled_calls (snd (runDueCalls env nowIso s)))"
proof -
  define limit where "limit = min (requestedLimit (body_limit env))
     (max 0 (MAX_CONCURRENT_CALLS env - countActiveCalls (count_ok env) (calls s)))"
  show ?thesis
  proof (cases "limit \<le> 0")
    case True
    then have "snd (runDueCalls env nowIso s) = s"
      by (simp add: runDueCalls_def Let_def limit_def)
    then show ?thesis by (simp add: calls_forward_refl scheds_forward_refl)
  next
    case False
    obtain rows jobs where cl:
      "claimDueScheduled (claiming env) nowIso (nat limit) (scheduled_calls s) = (rows, jobs)"
      by (cases "claimDueScheduled (claiming env) nowIso (nat limit) (scheduled_calls s)")
    with claimDueScheduled_forward [of "scheduled_calls s" "claiming env" nowIso "nat limit"]
    have f1: "scheds_forward (scheduled_calls s) rows" by simp
    show ?thesis
    proof (cases jobs)
      case None
      with False cl have "snd (runDueCalls env nowIso s) = s\<lparr>scheduled_calls := rows\<rparr>"
        by (simp add: runDueCalls_def Let_def limit_def)
      with f1 show ?thesis by (simp add: calls_forward_refl)
    next
      case (Some js)
      obtain m s' where pj: "process_jobs (traceId env) (jobs_env env) nowIso js 0
                    (s\<lparr>scheduled_calls := rows\<rparr>) = (m, s')"
        by (cases "process_jobs (traceId env) (jobs_env env) nowIso js 0 (s\<lparr>scheduled_calls := rows\<rparr>)")
      with Some False cl have e: "snd (runDueCalls env nowIso s) = s'"
        by (simp add: runDueCalls_def Let_def limit_def)
      from process_jobs_forward [OF pj] have a: "calls_forward (calls s) (calls s')"
        and b: "scheds_forward rows (scheduled_calls s')" by simp_all
      from f1 b have "scheds_forward (scheduled_calls s) (scheduled_calls s')"
        by (rule scheds_forward_trans)
      with a e show ?thesis by simp
    qed
  qed
qed

lemma cancel_forward:
  "scheds_forward rows (snd (cancelScheduledCall auth_uid id_param patch_ok now rows))"
proof -
  have m: "\<And>i u. scheds_forward rows (map (\<lambda>r. if sc_id r = i \<and> sc_clerk_user_id r = u
                             then r\<lparr>sc_status := Canceled, sc_updated_at := Some now\<rparr>
                             else r) rows)"
  proof (rule scheds_forward_map)
    fix i u and r :: scheduled_call
    show "sc_id (if sc_id r = i \<and> sc_clerk_user_id r = u
                 then r\<lparr>sc_status := Canceled, sc_updated_at := Some now\<rparr> else r) = sc_id r
        \<and> sched_rank (sc_status r) \<le> sched_rank (sc_status (if sc_id r = i \<and> sc_clerk_user_id r = u
                 then r\<lparr>sc_status := Canceled, sc_updated_at := Some now\<rparr> else r))"
      using sched_rank_le_2 [of "sc_status r"] by simp
  qed
  show ?thesis
    by (simp add: cancelScheduledCall_def scheds_forward_refl m split: option.splits)
qed

lemma startCall_scheduled_calls:
  "scheduled_calls (snd (startCall env now s)) = scheduled_calls s"
  by (simp add: startCall_sequential split: option.splits sum.splits prod.splits)

lemma apply_op_forward:
  "calls_forward (calls s) (calls (apply_op x s))
   \<and> scheds_forward (scheduled_calls s) (scheduled_calls (apply_op x s))"
proof (cases x)
  case (Start_call env now)
  then show ?thesis
    by (simp add: startCall_forward startCall_scheduled_calls scheds_forward_refl)
next
  case (Run_due_calls env nowIso)
  then show ?thesis by (simp add: runDueCalls_forward)
next
  case (Cancel_scheduled u i ok now)
  then show ?thesis by (simp add: cancel_forward calls_forward_refl)
qed

lemma run_ops_forward:
  "calls_forward (calls s) (calls (run_ops ops s))
   \<and> scheds_forward (scheduled_calls s) (scheduled_calls (run_ops ops s))"
proof (induction ops arbitrary: s)
  case Nil
  then show ?case by (simp add: calls_forward_refl scheds_forward_refl)
next
  case (Cons x xs)
  from apply_op_forward [of s x] have a: "calls_forward (calls s) (calls (apply_op x s))"
    "scheds_forward (scheduled_calls s) (scheduled_calls (apply_op x s))" by simp_all
  from Cons.IH [of "apply_op x s"] have b:
    "calls_forward (calls (apply_op x s)) (calls (run_ops (x # xs) s))"
    "scheds_forward (scheduled_calls (apply_op x s)) (scheduled_calls (run_ops (x # xs) s))"
    by simp_all
  from a(1) b(1) have "calls_forward (calls s) (calls (run_ops (x # xs) s))"
    by (rule calls_forward_trans)
  moreover from a(2) b(2)
  have "scheds_forward (scheduled_calls s) (scheduled_calls (run_ops (x # xs) s))"
    by (rule scheds_forward_trans)
  ultimately show ?case by (rule conjI)
qed

section \<open>The claim about the order of statuses\<close>




end
